theory Spec2Isabelle
  imports Main
begin

section \<open>RoadYAML: the scan / parse / dump pipeline of \<^verbatim>\<open>roadyaml/yaml.py\<close>\<close>

text \<open>
  The development embeds the Python module function by function.  Modelling decisions:

  \<^item> A Python \<^verbatim>\<open>str\<close> is a \<open>string\<close>; one \<open>char\<close> stands for one code point below 256,
    so the texts covered are those of the Latin-1 range.
  \<^item> Python \<^verbatim>\<open>int\<close> is \<open>int\<close> (unbounded).  The interpreter's bound on the number of
    digits that \<^verbatim>\<open>int(str)\<close> and \<^verbatim>\<open>str(int)\<close> convert is switched off in \<open>py_int\<close>,
    \<open>str_int\<close> and the functions built on them; \<open>py_int_lim\<close> and
    \<open>scanner_parse_value_lim\<close> take the bound as a parameter.
  \<^item> Python \<^verbatim>\<open>float\<close> is an abstract type \<open>'f\<close>.  The two library operations the module
    uses on it are parameters: \<open>pf\<close> stands for \<^verbatim>\<open>float(s)\<close> (\<open>None\<close> where Python
    raises \<^verbatim>\<open>ValueError\<close>) and \<open>sf\<close> for \<^verbatim>\<open>str(x)\<close> on a float.
  \<^item> A Python \<^verbatim>\<open>dict\<close> is an association list in insertion order.
  \<^item> The parser's cursor \<^verbatim>\<open>self.pos\<close> is the list of tokens not yet consumed, which
    every parsing function returns next to its result.
  \<^item> The interpreter's bound on the depth of calls is a parameter of the functions named
    \<open>_fr\<close>, which take the number of frames still free and raise \<^verbatim>\<open>RecursionError\<close>
    when a call finds none; the parser nests two calls for each level of nesting.
    The other functions are those of an interpreter with room for every call: their
    results are the results of the code whenever it returns.
\<close>

subsection \<open>Values\<close>

datatype 'f val =
    VNull
  | VBool bool
  | VInt int
  | VFloat 'f
  | VStr string
  | VList "'f val list"
  | VDict "(string \<times> 'f val) list"

subsection \<open>The string operations of Python that the module uses\<close>

definition dquote :: char where
  "dquote = CHR 0x22"

definition squote :: char where
  "squote = CHR 0x27"

definition newline :: char where
  "newline = CHR 0x0A"

text \<open>\<^verbatim>\<open>str.isspace\<close> on a single code point below 256.\<close>

definition isspace :: "char \<Rightarrow> bool" where
  "isspace c = (of_char c \<in> set [9, 10, 11, 12, 13, 28, 29, 30, 31, 32, 133, 160 :: nat])"

definition lstrip :: "string \<Rightarrow> string" where
  "lstrip s = dropWhile isspace s"

definition rstrip :: "string \<Rightarrow> string" where
  "rstrip s = rev (dropWhile isspace (rev s))"

definition strip :: "string \<Rightarrow> string" where
  "strip s = rstrip (lstrip s)"

text \<open>\<^verbatim>\<open>str.lower\<close> on code points below 256: the capital letters are 65 to 90 and
  192 to 222 without 215, and the small letter is 32 further, which in these ranges
  is the same code with bit 5 set.\<close>

definition lower_char :: "char \<Rightarrow> char" where
  "lower_char c =
     (let n = (of_char c :: nat)
      in if (65 \<le> n \<and> n \<le> 90) \<or> (192 \<le> n \<and> n \<le> 222 \<and> n \<noteq> 215)
         then (case c of Char b0 b1 b2 b3 b4 b5 b6 b7 \<Rightarrow> Char b0 b1 b2 b3 b4 True b6 b7)
         else c)"

definition lower :: "string \<Rightarrow> string" where
  "lower s = map lower_char s"

definition startswith :: "string \<Rightarrow> string \<Rightarrow> bool" where
  "startswith s p = (take (length p) s = p)"

definition endswith :: "string \<Rightarrow> string \<Rightarrow> bool" where
  "endswith s p = (length p \<le> length s \<and> drop (length s - length p) s = p)"

text \<open>\<^verbatim>\<open>s.find(p)\<close>: the least index at which \<open>p\<close> occurs in \<open>s\<close>.\<close>

fun find_sub :: "string \<Rightarrow> string \<Rightarrow> nat option" where
  "find_sub [] p = (if p = [] then Some 0 else None)"
| "find_sub (c # cs) p =
     (if startswith (c # cs) p then Some 0
      else map_option Suc (find_sub cs p))"

text \<open>\<^verbatim>\<open>p in s\<close>.\<close>

definition contains :: "string \<Rightarrow> string \<Rightarrow> bool" where
  "contains s p = (find_sub s p \<noteq> None)"

text \<open>\<^verbatim>\<open>s.split(sep, 1)\<close> for a non-empty separator: one part when \<open>sep\<close> does not
  occur, two parts around its first occurrence otherwise.\<close>

definition split1 :: "string \<Rightarrow> string \<Rightarrow> string list" where
  "split1 s sep =
     (case find_sub s sep of
        None \<Rightarrow> [s]
      | Some i \<Rightarrow> [take i s, drop (i + length sep) s])"

text \<open>\<^verbatim>\<open>s.split("\n")\<close>.\<close>

fun split_lines :: "string \<Rightarrow> string list" where
  "split_lines [] = [[]]"
| "split_lines (c # cs) =
     (if c = newline then [] # split_lines cs
      else (case split_lines cs of
              [] \<Rightarrow> [[c]]
            | l # ls \<Rightarrow> (c # l) # ls))"

text \<open>\<^verbatim>\<open>"\n".join(lines)\<close>.\<close>

fun join_lines :: "string list \<Rightarrow> string" where
  "join_lines [] = []"
| "join_lines [l] = l"
| "join_lines (l # m # ls) = l @ newline # join_lines (m # ls)"

text \<open>\<^verbatim>\<open>s[1:-1]\<close>.\<close>

definition slice_1_m1 :: "string \<Rightarrow> string" where
  "slice_1_m1 s = take (length s - 1 - 1) (drop 1 s)"

subsection \<open>\<^verbatim>\<open>int(s)\<close> and \<^verbatim>\<open>str(i)\<close>\<close>

definition isdigit :: "char \<Rightarrow> bool" where
  "isdigit c = (48 \<le> (of_char c :: nat) \<and> (of_char c :: nat) \<le> 57)"

definition digit_val :: "char \<Rightarrow> nat" where
  "digit_val c = of_char c - 48"

text \<open>
  The digit loop of \<^verbatim>\<open>int(s)\<close> in base 10: digits, with a single underscore allowed
  between two digits.  \<open>us\<close> records that the previous character was an underscore
  (or that no digit has been read yet), in which case neither an underscore nor the
  end of the text may follow.
\<close>

fun int_digits :: "nat \<Rightarrow> bool \<Rightarrow> string \<Rightarrow> nat option" where
  "int_digits acc us [] = (if us then None else Some acc)"
| "int_digits acc us (c # cs) =
     (if c = CHR ''_'' then (if us then None else int_digits acc True cs)
      else if isdigit c then int_digits (10 * acc + digit_val c) False cs
      else None)"

text \<open>\<^verbatim>\<open>int(s)\<close> on a text without surrounding whitespace; \<open>None\<close> is \<^verbatim>\<open>ValueError\<close>.\<close>

definition py_int :: "string \<Rightarrow> int option" where
  "py_int s =
     (case s of
        [] \<Rightarrow> None
      | c # cs \<Rightarrow>
          if c = CHR ''-'' then map_option (\<lambda>n. - int n) (int_digits 0 True cs)
          else if c = CHR ''+'' then map_option int (int_digits 0 True cs)
          else map_option int (int_digits 0 True s))"

text \<open>
  The interpreter bounds the number of digits \<^verbatim>\<open>int(s)\<close> converts
  (\<^verbatim>\<open>sys.int_max_str_digits\<close>): with a bound \<open>max_str_digits\<close> that is not 0, a text
  of more than 640 digits and of more than \<open>max_str_digits\<close> digits raises
  \<^verbatim>\<open>ValueError\<close>, underscores and the sign not counted.  The bound is 4300 unless
  the interpreter is told otherwise, and 0 switches it off; \<open>py_int\<close> is \<^verbatim>\<open>int\<close>
  with the bound off.
\<close>

definition digit_count :: "string \<Rightarrow> nat" where
  "digit_count s = length (filter isdigit s)"

definition py_int_lim :: "nat \<Rightarrow> string \<Rightarrow> int option" where
  "py_int_lim max_str_digits s =
     (if 0 < max_str_digits \<and> 640 < digit_count s \<and> max_str_digits < digit_count s then None
      else py_int s)"

definition digit_char :: "nat \<Rightarrow> char" where
  "digit_char n = ''0123456789'' ! n"

fun str_nat :: "nat \<Rightarrow> string" where
  "str_nat n = (if n < 10 then [digit_char n] else str_nat (n div 10) @ [digit_char (n mod 10)])"

declare str_nat.simps [simp del]

text \<open>\<^verbatim>\<open>str(i)\<close> on an \<^verbatim>\<open>int\<close>.\<close>

definition str_int :: "int \<Rightarrow> string" where
  "str_int i = (if i < 0 then CHR ''-'' # str_nat (nat (- i)) else str_nat (nat i))"

subsection \<open>Scalar coercion: \<^verbatim>\<open>Scanner._parse_value\<close>\<close>

definition scanner_parse_value :: "(string \<Rightarrow> 'f option) \<Rightarrow> string \<Rightarrow> 'f val" where
  "scanner_parse_value pf value0 =
     (let value = strip value0 in
      if value = [] then VNull
      else if lower value \<in> set [''true'', ''yes'', ''on''] then VBool True
      else if lower value \<in> set [''false'', ''no'', ''off''] then VBool False
      else if lower value \<in> set [''null'', ''~''] then VNull
      else if startswith value [dquote] \<and> endswith value [dquote] then VStr (slice_1_m1 value)
      else if startswith value [squote] \<and> endswith value [squote] then VStr (slice_1_m1 value)
      else (case py_int value of
              Some i \<Rightarrow> VInt i
            | None \<Rightarrow>
                (case pf value of
                   Some x \<Rightarrow> VFloat x
                 | None \<Rightarrow> VStr value)))"

text \<open>The same function under a bound on the digits of \<^verbatim>\<open>int\<close>: a literal past the
  bound raises inside the \<^verbatim>\<open>try\<close> and goes on to \<^verbatim>\<open>float\<close>.\<close>

definition scanner_parse_value_lim :: "nat \<Rightarrow> (string \<Rightarrow> 'f option) \<Rightarrow> string \<Rightarrow> 'f val" where
  "scanner_parse_value_lim max_str_digits pf value0 =
     (let value = strip value0 in
      if value = [] then VNull
      else if lower value \<in> set [''true'', ''yes'', ''on''] then VBool True
      else if lower value \<in> set [''false'', ''no'', ''off''] then VBool False
      else if lower value \<in> set [''null'', ''~''] then VNull
      else if startswith value [dquote] \<and> endswith value [dquote] then VStr (slice_1_m1 value)
      else if startswith value [squote] \<and> endswith value [squote] then VStr (slice_1_m1 value)
      else (case py_int_lim max_str_digits value of
              Some i \<Rightarrow> VInt i
            | None \<Rightarrow>
                (case pf value of
                   Some x \<Rightarrow> VFloat x
                 | None \<Rightarrow> VStr value)))"

subsection \<open>Tokens\<close>

text \<open>
  \<^verbatim>\<open>Token(type, value, line, indent)\<close>.  The type tag and the payload it announces are
  one constructor: \<^verbatim>\<open>LIST_ITEM\<close> and \<^verbatim>\<open>KEY\<close> carry raw text, \<^verbatim>\<open>KEY_VALUE\<close> a key
  and a coerced value, \<^verbatim>\<open>VALUE\<close> a coerced value.
\<close>

datatype 'f tok =
    LIST_ITEM string
  | KEY string
  | KEY_VALUE string "'f val"
  | VALUE "'f val"

record 'f token =
  tok :: "'f tok"
  line :: nat
  indent :: nat

subsection \<open>\<^verbatim>\<open>Scanner.scan\<close>\<close>

text \<open>
  The errors of \<^verbatim>\<open>load\<close>.  One statement of the module can raise outside a \<^verbatim>\<open>try\<close>:
  unpacking the result of \<^verbatim>\<open>split\<close> into two names, a \<^verbatim>\<open>ValueError\<close>.  The interpreter
  raises \<^verbatim>\<open>RecursionError\<close> when calls nest deeper than it allows; the module's
  handlers catch \<^verbatim>\<open>ValueError\<close> only.
\<close>

datatype error = ValueError | RecursionError

text \<open>The body of the scanner's loop for one line: no token for a blank or comment
  line, one token otherwise.\<close>

definition scan_line :: "(string \<Rightarrow> 'f option) \<Rightarrow> nat \<Rightarrow> string \<Rightarrow> error + 'f token option" where
  "scan_line pf line_num l =
     (if strip l = [] \<or> startswith (strip l) ''#'' then Inr None
      else
        let ind = length l - length (lstrip l);
            content = strip l
        in
          if startswith content ''- '' then
            Inr (Some \<lparr>tok = LIST_ITEM (drop 2 content), line = line_num, indent = ind\<rparr>)
          else if contains content '': '' \<or> endswith content '':'' then
            (if endswith content '':'' then
               Inr (Some \<lparr>tok = KEY (butlast content), line = line_num, indent = ind\<rparr>)
             else
               (case split1 content '': '' of
                  [key, value] \<Rightarrow>
                    Inr (Some \<lparr>tok = KEY_VALUE key (scanner_parse_value pf value),
                               line = line_num, indent = ind\<rparr>)
                | _ \<Rightarrow> Inl ValueError))
          else
            Inr (Some \<lparr>tok = VALUE (scanner_parse_value pf content),
                       line = line_num, indent = ind\<rparr>))"

fun scan_lines :: "(string \<Rightarrow> 'f option) \<Rightarrow> nat \<Rightarrow> string list \<Rightarrow> error + 'f token list" where
  "scan_lines pf line_num [] = Inr []"
| "scan_lines pf line_num (l # ls) =
     (case scan_line pf line_num l of
        Inl e \<Rightarrow> Inl e
      | Inr r \<Rightarrow>
          (case scan_lines pf (Suc line_num) ls of
             Inl e \<Rightarrow> Inl e
           | Inr tokens \<Rightarrow> Inr (case r of None \<Rightarrow> tokens | Some t \<Rightarrow> t # tokens)))"

definition scanner_scan :: "(string \<Rightarrow> 'f option) \<Rightarrow> string \<Rightarrow> error + 'f token list" where
  "scanner_scan pf text = scan_lines pf 1 (split_lines text)"

subsection \<open>The parser\<close>

text \<open>\<^verbatim>\<open>result[key] = value\<close> on a \<^verbatim>\<open>dict\<close>: an existing key keeps its place and
  takes the new value, a new key goes to the end.\<close>

fun dict_set :: "('k \<times> 'v) list \<Rightarrow> 'k \<Rightarrow> 'v \<Rightarrow> ('k \<times> 'v) list" where
  "dict_set [] k v = [(k, v)]"
| "dict_set ((k', v') # kvs) k v =
     (if k' = k then (k', v) # kvs else (k', v') # dict_set kvs k v)"

definition parser_parse_scalar :: "(string \<Rightarrow> 'f option) \<Rightarrow> string \<Rightarrow> 'f val" where
  "parser_parse_scalar pf value = scanner_parse_value pf value"

fun parser_parse_list ::
  "(string \<Rightarrow> 'f option) \<Rightarrow> nat \<Rightarrow> 'f token list \<Rightarrow> 'f val list \<Rightarrow> 'f val list \<times> 'f token list" where
  "parser_parse_list pf base_indent [] result = (result, [])"
| "parser_parse_list pf base_indent (t # ts) result =
     (if indent t < base_indent then (result, t # ts)
      else
        (case tok t of
           LIST_ITEM s \<Rightarrow> parser_parse_list pf base_indent ts (result @ [parser_parse_scalar pf s])
         | _ \<Rightarrow> (result, t # ts)))"

function
  parser_parse_value ::
    "(string \<Rightarrow> 'f option) \<Rightarrow> nat \<Rightarrow> 'f token list \<Rightarrow> 'f val \<times> 'f token list" and
  parser_parse_mapping ::
    "(string \<Rightarrow> 'f option) \<Rightarrow> nat \<Rightarrow> 'f token list \<Rightarrow> (string \<times> 'f val) list
       \<Rightarrow> (string \<times> 'f val) list \<times> 'f token list"
where
  "parser_parse_value pf base_indent [] = (VNull, [])"
| "parser_parse_value pf base_indent (t # ts) =
     (case tok t of
        LIST_ITEM s \<Rightarrow>
          (case parser_parse_list pf base_indent (t # ts) [] of
             (r, rest) \<Rightarrow> (VList r, rest))
      | KEY k \<Rightarrow>
          (case parser_parse_mapping pf base_indent (t # ts) [] of
             (r, rest) \<Rightarrow> (VDict r, rest))
      | KEY_VALUE k v \<Rightarrow>
          (case parser_parse_mapping pf base_indent (t # ts) [] of
             (r, rest) \<Rightarrow> (VDict r, rest))
      | VALUE v \<Rightarrow> (v, ts))"
| "parser_parse_mapping pf base_indent [] result = (result, [])"
| "parser_parse_mapping pf base_indent (t # ts) result =
     (if indent t < base_indent then (result, t # ts)
      else
        (case tok t of
           KEY_VALUE key value \<Rightarrow>
             parser_parse_mapping pf base_indent ts (dict_set result key value)
         | KEY key \<Rightarrow>
             (case ts of
                [] \<Rightarrow> parser_parse_mapping pf base_indent [] (dict_set result key VNull)
              | next_token # _ \<Rightarrow>
                  if indent next_token > indent t then
                    (case parser_parse_value pf (indent next_token) ts of
                       (v, rest) \<Rightarrow>
                         parser_parse_mapping pf base_indent rest (dict_set result key v))
                  else parser_parse_mapping pf base_indent ts (dict_set result key VNull))
         | _ \<Rightarrow> (result, t # ts)))"
  by pat_completeness auto

text \<open>
  The mapping loop continues on the tokens its child parse has left, so termination
  rests on the fact that no parse returns more tokens than it was given.
\<close>

lemma parser_parse_list_length:
  "length (snd (parser_parse_list pf b ts r)) \<le> length ts"
  by (induction ts arbitrary: r) (auto split: tok.splits intro: le_SucI)

lemma parse_length_partial:
  "parser_parse_value_parser_parse_mapping_dom (Inl (pf, b, ts)) \<Longrightarrow>
     length (snd (parser_parse_value pf b ts)) \<le> length ts"
  "parser_parse_value_parser_parse_mapping_dom (Inr (pf, b, ts, r)) \<Longrightarrow>
     length (snd (parser_parse_mapping pf b ts r)) \<le> length ts"
proof (induction pf b ts and pf b ts r rule: parser_parse_value_parser_parse_mapping.pinduct)
  case (1 pf base_indent)
  then show ?case by (simp add: parser_parse_value.psimps)
next
  case (2 pf base_indent t ts)
  then show ?case
    using parser_parse_list_length[of pf base_indent "t # ts" "[]"]
    by (auto simp: parser_parse_value.psimps split: tok.splits prod.splits)
next
  case (3 pf base_indent result)
  then show ?case by (simp add: parser_parse_mapping.psimps)
next
  case (4 pf base_indent t ts result)
  show ?case
  proof (cases "indent t < base_indent")
    case True
    then show ?thesis using "4.hyps" by (simp add: parser_parse_mapping.psimps)
  next
    case ge: False
    show ?thesis
    proof (cases "tok t")
      case (LIST_ITEM s)
      then show ?thesis using "4.hyps" ge by (simp add: parser_parse_mapping.psimps)
    next
      case (KEY k)
      show ?thesis
      proof (cases ts)
        case Nil
        then show ?thesis using "4.hyps" "4.IH"(1)[OF ge KEY] KEY ge
          by (simp add: parser_parse_mapping.psimps)
      next
        case (Cons n ns)
        show ?thesis
        proof (cases "indent t < indent n")
          case True
          obtain v rest where pv: "parser_parse_value pf (indent n) ts = (v, rest)"
            by (cases "parser_parse_value pf (indent n) ts")
          have l1: "length rest \<le> length ts"
            using "4.IH"(2)[OF ge KEY Cons True] pv by simp
          have l2: "length (snd (parser_parse_mapping pf base_indent rest (dict_set result k v)))
                      \<le> length rest"
            using "4.IH"(3)[OF ge KEY Cons True pv[symmetric]] .
          show ?thesis using "4.hyps" KEY ge Cons True pv l1 l2
            by (simp add: parser_parse_mapping.psimps)
        next
          case False
          then show ?thesis using "4.hyps" "4.IH"(4)[OF ge KEY Cons False] KEY ge Cons
            by (simp add: parser_parse_mapping.psimps)
        qed
      qed
    next
      case (KEY_VALUE k v)
      then show ?thesis using "4.hyps" "4.IH"(5)[OF ge KEY_VALUE] ge
        by (simp add: parser_parse_mapping.psimps)
    next
      case (VALUE v)
      then show ?thesis using "4.hyps" ge by (simp add: parser_parse_mapping.psimps)
    qed
  qed
qed

termination parser_parse_value
  apply (relation "measure (\<lambda>x. case x of Inl (pf, b, ts) \<Rightarrow> 2 * length ts + 1
                                        | Inr (pf, b, ts, r) \<Rightarrow> 2 * length ts)")
         apply simp_all
  subgoal premises p
    using parse_length_partial(1)[OF p(6)] p(5)[symmetric] by simp
  done

declare parser_parse_value.simps [simp del] parser_parse_mapping.simps [simp del]

lemma parse_length:
  "length (snd (parser_parse_value pf b ts)) \<le> length ts"
  "length (snd (parser_parse_mapping pf b ts r)) \<le> length ts"
proof (induction pf b ts and pf b ts r rule: parser_parse_value_parser_parse_mapping.induct)
  case (1 pf base_indent)
  then show ?case by (simp add: parser_parse_value.simps)
next
  case (2 pf base_indent t ts)
  show ?case
  proof (cases "tok t")
    case (LIST_ITEM s)
    then show ?thesis
      using parser_parse_list_length[of pf base_indent "t # ts" "[]"]
      by (auto simp: parser_parse_value.simps split: prod.splits simp del: parser_parse_list.simps)
  next
    case (KEY k)
    then show ?thesis using "2.IH"(1)[OF KEY]
      by (auto simp: parser_parse_value.simps split: prod.splits)
  next
    case (KEY_VALUE k v)
    then show ?thesis using "2.IH"(2)[OF KEY_VALUE]
      by (auto simp: parser_parse_value.simps split: prod.splits)
  next
    case (VALUE v)
    then show ?thesis by (simp add: parser_parse_value.simps)
  qed
next
  case (3 pf base_indent result)
  then show ?case by (simp add: parser_parse_mapping.simps)
next
  case (4 pf base_indent t ts result)
  show ?case
  proof (cases "indent t < base_indent")
    case True
    then show ?thesis by (simp add: parser_parse_mapping.simps)
  next
    case ge: False
    show ?thesis
    proof (cases "tok t")
      case (LIST_ITEM s)
      then show ?thesis using ge by (simp add: parser_parse_mapping.simps)
    next
      case (VALUE v)
      then show ?thesis using ge by (simp add: parser_parse_mapping.simps)
    next
      case (KEY_VALUE k v)
      then show ?thesis using ge "4.IH"(5)[OF ge KEY_VALUE]
        by (simp add: parser_parse_mapping.simps)
    next
      case (KEY k)
      show ?thesis
      proof (cases ts)
        case Nil
        then show ?thesis using ge KEY by (simp add: parser_parse_mapping.simps)
      next
        case (Cons n ns)
        show ?thesis
        proof (cases "indent t < indent n")
          case False
          then show ?thesis using ge KEY Cons "4.IH"(4)[OF ge KEY Cons False]
            by (simp add: parser_parse_mapping.simps)
        next
          case True
          obtain v rest where pv: "parser_parse_value pf (indent n) ts = (v, rest)"
            by (cases "parser_parse_value pf (indent n) ts")
          have l1: "length rest \<le> length ts"
            using "4.IH"(2)[OF ge KEY Cons True] pv by simp
          have l2: "length (snd (parser_parse_mapping pf base_indent rest (dict_set result k v)))
                      \<le> length rest"
            using "4.IH"(3)[OF ge KEY Cons True pv[symmetric]] .
          show ?thesis using KEY ge Cons True pv l1 l2
            by (simp add: parser_parse_mapping.simps)
        qed
      qed
    qed
  qed
qed

text \<open>\<^verbatim>\<open>Parser.parse\<close>.\<close>

definition parser_parse :: "(string \<Rightarrow> 'f option) \<Rightarrow> 'f token list \<Rightarrow> 'f val" where
  "parser_parse pf tokens =
     (if tokens = [] then VNull else fst (parser_parse_value pf 0 tokens))"

subsection \<open>The module under the recursion limit\<close>

text \<open>
  A call of a function, method or constructor defined in the module takes one frame
  of the interpreter's stack, and gives it back when it returns; a call that finds no
  frame free raises \<^verbatim>\<open>RecursionError\<close>, which no handler of the module catches.  The
  calls of builtins (\<^verbatim>\<open>len\<close>, \<^verbatim>\<open>int\<close>, the methods of \<^verbatim>\<open>str\<close> and \<^verbatim>\<open>list\<close>) are taken
  to need no frame, as CPython 3.12 counts them.

  Each function below is the function of the same name above, called when \<open>free\<close>
  frames are free: with none free the call raises, and the calls in its body find
  one frame fewer.  The loops of \<^verbatim>\<open>_parse_list\<close> and \<^verbatim>\<open>_parse_mapping\<close> run inside the
  frame of their function, so \<open>list_loop_fr\<close> and \<open>mapping_loop_fr\<close> take the number of
  frames free inside that frame.

  The constructors \<^verbatim>\<open>Scanner(text)\<close>, \<^verbatim>\<open>Parser(tokens)\<close> and \<^verbatim>\<open>Token(...)\<close> (whose
  \<^verbatim>\<open>__init__\<close> the \<^verbatim>\<open>dataclass\<close> decorator writes) call nothing.
\<close>

definition construct_fr :: "nat \<Rightarrow> 'a \<Rightarrow> error + 'a" where
  "construct_fr free x = (if free = 0 then Inl RecursionError else Inr x)"

text \<open>\<^verbatim>\<open>Scanner._parse_value\<close> calls builtins only.\<close>

definition scanner_parse_value_fr :: "nat \<Rightarrow> (string \<Rightarrow> 'f option) \<Rightarrow> string \<Rightarrow> error + 'f val" where
  "scanner_parse_value_fr free pf value =
     (if free = 0 then Inl RecursionError else Inr (scanner_parse_value pf value))"

text \<open>The body of the scanner's loop: a line that gives a token calls the constructor
  of \<^verbatim>\<open>Token\<close> and, for a \<^verbatim>\<open>KEY_VALUE\<close> or \<^verbatim>\<open>VALUE\<close> line, \<^verbatim>\<open>self._parse_value\<close> before
  it, each with the frames free inside \<^verbatim>\<open>scan\<close>.\<close>

definition scan_line_fr ::
  "nat \<Rightarrow> (string \<Rightarrow> 'f option) \<Rightarrow> nat \<Rightarrow> string \<Rightarrow> error + 'f token option" where
  "scan_line_fr free pf line_num l =
     (case scan_line pf line_num l of
        Inl e \<Rightarrow> Inl e
      | Inr None \<Rightarrow> Inr None
      | Inr (Some t) \<Rightarrow> if free = 0 then Inl RecursionError else Inr (Some t))"

fun scan_lines_fr ::
  "nat \<Rightarrow> (string \<Rightarrow> 'f option) \<Rightarrow> nat \<Rightarrow> string list \<Rightarrow> error + 'f token list" where
  "scan_lines_fr free pf line_num [] = Inr []"
| "scan_lines_fr free pf line_num (l # ls) =
     (case scan_line_fr free pf line_num l of
        Inl e \<Rightarrow> Inl e
      | Inr r \<Rightarrow>
          (case scan_lines_fr free pf (Suc line_num) ls of
             Inl e \<Rightarrow> Inl e
           | Inr tokens \<Rightarrow> Inr (case r of None \<Rightarrow> tokens | Some t \<Rightarrow> t # tokens)))"

definition scanner_scan_fr :: "nat \<Rightarrow> (string \<Rightarrow> 'f option) \<Rightarrow> string \<Rightarrow> error + 'f token list" where
  "scanner_scan_fr free pf text =
     (if free = 0 then Inl RecursionError
      else scan_lines_fr (free - 1) pf 1 (split_lines text))"

text \<open>\<^verbatim>\<open>_parse_scalar\<close> calls \<^verbatim>\<open>Scanner("")\<close> and then \<^verbatim>\<open>scanner._parse_value\<close>.\<close>

definition parser_parse_scalar_fr :: "nat \<Rightarrow> (string \<Rightarrow> 'f option) \<Rightarrow> string \<Rightarrow> error + 'f val" where
  "parser_parse_scalar_fr free pf value =
     (if free = 0 then Inl RecursionError
      else
        (case construct_fr (free - 1) () of
           Inl e \<Rightarrow> Inl e
         | Inr scanner \<Rightarrow> scanner_parse_value_fr (free - 1) pf value))"

fun list_loop_fr ::
  "nat \<Rightarrow> (string \<Rightarrow> 'f option) \<Rightarrow> nat \<Rightarrow> 'f token list \<Rightarrow> 'f val list
     \<Rightarrow> error + 'f val list \<times> 'f token list" where
  "list_loop_fr free pf base_indent [] result = Inr (result, [])"
| "list_loop_fr free pf base_indent (t # ts) result =
     (if indent t < base_indent then Inr (result, t # ts)
      else
        (case tok t of
           LIST_ITEM s \<Rightarrow>
             (case parser_parse_scalar_fr free pf s of
                Inl e \<Rightarrow> Inl e
              | Inr value \<Rightarrow> list_loop_fr free pf base_indent ts (result @ [value]))
         | _ \<Rightarrow> Inr (result, t # ts)))"

definition parser_parse_list_fr ::
  "nat \<Rightarrow> (string \<Rightarrow> 'f option) \<Rightarrow> nat \<Rightarrow> 'f token list
     \<Rightarrow> error + 'f val list \<times> 'f token list" where
  "parser_parse_list_fr free pf base_indent ts =
     (if free = 0 then Inl RecursionError
      else list_loop_fr (free - 1) pf base_indent ts [])"

function
  parser_parse_value_fr ::
    "nat \<Rightarrow> (string \<Rightarrow> 'f option) \<Rightarrow> nat \<Rightarrow> 'f token list \<Rightarrow> error + 'f val \<times> 'f token list" and
  parser_parse_mapping_fr ::
    "nat \<Rightarrow> (string \<Rightarrow> 'f option) \<Rightarrow> nat \<Rightarrow> 'f token list
       \<Rightarrow> error + (string \<times> 'f val) list \<times> 'f token list" and
  mapping_loop_fr ::
    "nat \<Rightarrow> (string \<Rightarrow> 'f option) \<Rightarrow> nat \<Rightarrow> 'f token list \<Rightarrow> (string \<times> 'f val) list
       \<Rightarrow> error + (string \<times> 'f val) list \<times> 'f token list"
where
  "parser_parse_value_fr free pf base_indent ts =
     (if free = 0 then Inl RecursionError
      else
        (case ts of
           [] \<Rightarrow> Inr (VNull, [])
         | t # ts' \<Rightarrow>
             (case tok t of
                LIST_ITEM s \<Rightarrow>
                  (case parser_parse_list_fr (free - 1) pf base_indent ts of
                     Inl e \<Rightarrow> Inl e
                   | Inr (r, rest) \<Rightarrow> Inr (VList r, rest))
              | KEY k \<Rightarrow>
                  (case parser_parse_mapping_fr (free - 1) pf base_indent ts of
                     Inl e \<Rightarrow> Inl e
                   | Inr (r, rest) \<Rightarrow> Inr (VDict r, rest))
              | KEY_VALUE k v \<Rightarrow>
                  (case parser_parse_mapping_fr (free - 1) pf base_indent ts of
                     Inl e \<Rightarrow> Inl e
                   | Inr (r, rest) \<Rightarrow> Inr (VDict r, rest))
              | VALUE v \<Rightarrow> Inr (v, ts'))))"
| "parser_parse_mapping_fr free pf base_indent ts =
     (if free = 0 then Inl RecursionError
      else mapping_loop_fr (free - 1) pf base_indent ts [])"
| "mapping_loop_fr free pf base_indent [] result = Inr (result, [])"
| "mapping_loop_fr free pf base_indent (t # ts) result =
     (if indent t < base_indent then Inr (result, t # ts)
      else
        (case tok t of
           KEY_VALUE key value \<Rightarrow>
             mapping_loop_fr free pf base_indent ts (dict_set result key value)
         | KEY key \<Rightarrow>
             (case ts of
                [] \<Rightarrow> mapping_loop_fr free pf base_indent [] (dict_set result key VNull)
              | next_token # _ \<Rightarrow>
                  if indent next_token > indent t then
                    (case parser_parse_value_fr free pf (indent next_token) ts of
                       Inl e \<Rightarrow> Inl e
                     | Inr (v, rest) \<Rightarrow>
                         mapping_loop_fr free pf base_indent rest (dict_set result key v))
                  else mapping_loop_fr free pf base_indent ts (dict_set result key VNull))
         | _ \<Rightarrow> Inr (result, t # ts)))"
  by pat_completeness auto

text \<open>Termination, as for the parser above: no parse returns more tokens than it was
  given.\<close>

lemma list_loop_fr_length:
  "list_loop_fr free pf b ts r0 = Inr (r, rest) \<Longrightarrow> length rest \<le> length ts"
  by (induction ts arbitrary: r0)
     (auto split: if_splits tok.splits sum.splits intro: le_SucI)

lemma parse_list_fr_length:
  "parser_parse_list_fr free pf b ts = Inr (r, rest) \<Longrightarrow> length rest \<le> length ts"
  by (auto simp: parser_parse_list_fr_def list_loop_fr_length split: if_splits)

lemma parse_fr_length_partial:
  "parser_parse_value_fr_parser_parse_mapping_fr_mapping_loop_fr_dom (Inl (free, pf, b, ts)) \<Longrightarrow>
     parser_parse_value_fr free pf b ts = Inr (v, rest) \<Longrightarrow> length rest \<le> length ts"
  "parser_parse_value_fr_parser_parse_mapping_fr_mapping_loop_fr_dom (Inr (Inl (free, pf, b, ts))) \<Longrightarrow>
     parser_parse_mapping_fr free pf b ts = Inr (r, rest) \<Longrightarrow> length rest \<le> length ts"
  "parser_parse_value_fr_parser_parse_mapping_fr_mapping_loop_fr_dom (Inr (Inr (free, pf, b, ts, r0))) \<Longrightarrow>
     mapping_loop_fr free pf b ts r0 = Inr (r, rest) \<Longrightarrow> length rest \<le> length ts"
proof (induction free pf b ts and free pf b ts and free pf b ts r0
       arbitrary: v rest and r rest and r rest
       rule: parser_parse_value_fr_parser_parse_mapping_fr_mapping_loop_fr.pinduct)
  case (1 free pf base_indent ts)
  show ?case
  proof (cases ts)
    case Nil
    then show ?thesis using "1.hyps" "1.prems"
      by (simp add: parser_parse_value_fr.psimps split: if_splits)
  next
    case (Cons t ts')
    have f: "free \<noteq> 0" using "1.hyps" "1.prems"
      by (auto simp: parser_parse_value_fr.psimps split: if_splits)
    show ?thesis
    proof (cases "tok t")
      case (LIST_ITEM s)
      then show ?thesis using "1.hyps" "1.prems" Cons f
        by (auto simp: parser_parse_value_fr.psimps split: sum.splits dest: parse_list_fr_length)
    next
      case (KEY k)
      then show ?thesis using "1.hyps" "1.prems" Cons f "1.IH"(1)[OF f Cons KEY]
        by (auto simp: parser_parse_value_fr.psimps split: sum.splits)
    next
      case (KEY_VALUE k v')
      then show ?thesis using "1.hyps" "1.prems" Cons f "1.IH"(2)[OF f Cons KEY_VALUE]
        by (auto simp: parser_parse_value_fr.psimps split: sum.splits)
    next
      case (VALUE v')
      then show ?thesis using "1.hyps" "1.prems" Cons f
        by (auto simp: parser_parse_value_fr.psimps)
    qed
  qed
next
  case (2 free pf base_indent ts)
  have f: "free \<noteq> 0" using "2.hyps" "2.prems"
    by (auto simp: parser_parse_mapping_fr.psimps split: if_splits)
  then show ?case using "2.hyps" "2.prems" "2.IH"[OF f]
    by (simp add: parser_parse_mapping_fr.psimps)
next
  case (3 free pf base_indent result)
  then show ?case by (simp add: mapping_loop_fr.psimps)
next
  case (4 free pf base_indent t ts result)
  show ?case
  proof (cases "indent t < base_indent")
    case True
    then show ?thesis using "4.hyps" "4.prems" by (simp add: mapping_loop_fr.psimps)
  next
    case ge: False
    show ?thesis
    proof (cases "tok t")
      case (LIST_ITEM s)
      then show ?thesis using "4.hyps" "4.prems" ge by (simp add: mapping_loop_fr.psimps)
    next
      case (VALUE v')
      then show ?thesis using "4.hyps" "4.prems" ge by (simp add: mapping_loop_fr.psimps)
    next
      case (KEY_VALUE k v')
      then have "mapping_loop_fr free pf base_indent ts (dict_set result k v') = Inr (r, rest)"
        using "4.hyps" "4.prems" ge by (simp add: mapping_loop_fr.psimps)
      then show ?thesis using "4.IH"(5)[OF ge KEY_VALUE] by (simp add: le_SucI)
    next
      case (KEY k)
      show ?thesis
      proof (cases ts)
        case Nil
        then show ?thesis using "4.hyps" "4.prems" ge KEY "4.IH"(1)[OF ge KEY Nil]
          by (simp add: mapping_loop_fr.psimps)
      next
        case (Cons n ns)
        show ?thesis
        proof (cases "indent t < indent n")
          case False
          then have "mapping_loop_fr free pf base_indent ts (dict_set result k VNull) = Inr (r, rest)"
            using "4.hyps" "4.prems" ge KEY Cons by (simp add: mapping_loop_fr.psimps)
          then show ?thesis using "4.IH"(4)[OF ge KEY Cons False] by (simp add: le_SucI)
        next
          case True
          obtain v' rest' where pv: "parser_parse_value_fr free pf (indent n) ts = Inr (v', rest')"
            and ml: "mapping_loop_fr free pf base_indent rest' (dict_set result k v') = Inr (r, rest)"
            using "4.hyps" "4.prems" ge KEY Cons True
            by (auto simp: mapping_loop_fr.psimps split: sum.splits)
          have l1: "length rest' \<le> length ts"
            using "4.IH"(2)[OF ge KEY Cons True pv] .
          have l2: "length rest \<le> length rest'"
            using "4.IH"(3)[OF ge KEY Cons True pv refl ml] .
          show ?thesis using l1 l2 by simp
        qed
      qed
    qed
  qed
qed

termination parser_parse_value_fr
  apply (relation "measure (\<lambda>x. case x of
                      Inl (free, pf, b, ts) \<Rightarrow> 3 * length ts + 2
                    | Inr (Inl (free, pf, b, ts)) \<Rightarrow> 3 * length ts + 1
                    | Inr (Inr (free, pf, b, ts, r)) \<Rightarrow> 3 * length ts)")
         apply simp_all
  subgoal for free pf base_indent t ts x2 x21 x22 b x y
    using parse_fr_length_partial(1)[of free pf "indent x21" "x21 # x22" x y] by simp
  done

declare parser_parse_value_fr.simps [simp del] parser_parse_mapping_fr.simps [simp del]
  mapping_loop_fr.simps [simp del]

text \<open>\<^verbatim>\<open>Parser.parse\<close>.\<close>

definition parser_parse_fr :: "nat \<Rightarrow> (string \<Rightarrow> 'f option) \<Rightarrow> 'f token list \<Rightarrow> error + 'f val" where
  "parser_parse_fr free pf tokens =
     (if free = 0 then Inl RecursionError
      else if tokens = [] then Inr VNull
      else
        (case parser_parse_value_fr (free - 1) pf 0 tokens of
           Inl e \<Rightarrow> Inl e
         | Inr (v, rest) \<Rightarrow> Inr v))"

text \<open>
  \<^verbatim>\<open>load\<close>, called when \<open>free\<close> frames are free (\<^verbatim>\<open>sys.getrecursionlimit()\<close>, 1000
  unless changed, less the depth of the caller): the two constructors, \<^verbatim>\<open>scan\<close> and
  \<^verbatim>\<open>parse\<close> are called one after the other inside its frame.
\<close>

definition load_fr :: "nat \<Rightarrow> (string \<Rightarrow> 'f option) \<Rightarrow> string \<Rightarrow> error + 'f val" where
  "load_fr free pf text =
     (if free = 0 then Inl RecursionError
      else
        (case construct_fr (free - 1) () of
           Inl e \<Rightarrow> Inl e
         | Inr scanner \<Rightarrow>
             (case scanner_scan_fr (free - 1) pf text of
                Inl e \<Rightarrow> Inl e
              | Inr tokens \<Rightarrow>
                  (case construct_fr (free - 1) () of
                     Inl e \<Rightarrow> Inl e
                   | Inr parser \<Rightarrow> parser_parse_fr (free - 1) pf tokens))))"

subsection \<open>The depth of the calls\<close>

text \<open>
  The number of frames a call occupies at its deepest, its own frame included; the
  call raises \<^verbatim>\<open>RecursionError\<close> exactly when fewer are free (proved below for each
  function of the previous subsection).

  \<^verbatim>\<open>_parse_list\<close>: its own frame and, if it converts an item, the frame of
  \<^verbatim>\<open>_parse_scalar\<close> and below it the frame of \<^verbatim>\<open>Scanner("")\<close> or of
  \<^verbatim>\<open>scanner._parse_value\<close>.
\<close>

definition frames_list :: "nat \<Rightarrow> 'f token list \<Rightarrow> nat" where
  "frames_list base_indent ts =
     (case ts of
        [] \<Rightarrow> 1
      | t # _ \<Rightarrow>
          if indent t < base_indent then 1
          else (case tok t of LIST_ITEM s \<Rightarrow> 3 | _ \<Rightarrow> 1))"

text \<open>
  \<^verbatim>\<open>Parser._parse_value\<close> occupies its own frame and those of the \<^verbatim>\<open>_parse_list\<close> or
  \<^verbatim>\<open>_parse_mapping\<close> it calls.  \<^verbatim>\<open>_parse_mapping\<close> occupies its own frame and, below
  it, the most that a \<^verbatim>\<open>_parse_value\<close> called by its loop occupies, which is
  \<open>frames_children\<close>: it follows the loop of \<open>parser_parse_mapping\<close>, going on from
  the tokens that each child parse leaves.
\<close>

function
  frames_value :: "(string \<Rightarrow> 'f option) \<Rightarrow> nat \<Rightarrow> 'f token list \<Rightarrow> nat" and
  frames_children :: "(string \<Rightarrow> 'f option) \<Rightarrow> nat \<Rightarrow> 'f token list \<Rightarrow> nat"
where
  "frames_value pf base_indent [] = 1"
| "frames_value pf base_indent (t # ts) =
     (case tok t of
        LIST_ITEM s \<Rightarrow> 1 + frames_list base_indent (t # ts)
      | KEY k \<Rightarrow> 1 + (1 + frames_children pf base_indent (t # ts))
      | KEY_VALUE k v \<Rightarrow> 1 + (1 + frames_children pf base_indent (t # ts))
      | VALUE v \<Rightarrow> 1)"
| "frames_children pf base_indent [] = 0"
| "frames_children pf base_indent (t # ts) =
     (if indent t < base_indent then 0
      else
        (case tok t of
           KEY_VALUE key value \<Rightarrow> frames_children pf base_indent ts
         | KEY key \<Rightarrow>
             (case ts of
                [] \<Rightarrow> 0
              | next_token # _ \<Rightarrow>
                  if indent next_token > indent t then
                    max (frames_value pf (indent next_token) ts)
                        (frames_children pf base_indent
                           (snd (parser_parse_value pf (indent next_token) ts)))
                  else frames_children pf base_indent ts)
         | _ \<Rightarrow> 0))"
  by pat_completeness auto

termination
  apply (relation "measure (\<lambda>x. case x of Inl (pf, b, ts) \<Rightarrow> 2 * length ts + 1
                                        | Inr (pf, b, ts) \<Rightarrow> 2 * length ts)")
        apply simp_all
  subgoal for pf base_indent t ts x2 x21 x22
    using parse_length(1)[of pf "indent x21" ts] by simp
  done

declare frames_value.simps [simp del] frames_children.simps [simp del]

text \<open>\<^verbatim>\<open>Parser.parse\<close>: its own frame, and those of \<^verbatim>\<open>_parse_value(0)\<close> when there are
  tokens.\<close>

definition frames_parse :: "(string \<Rightarrow> 'f option) \<Rightarrow> 'f token list \<Rightarrow> nat" where
  "frames_parse pf tokens = (if tokens = [] then 1 else 1 + frames_value pf 0 tokens)"

text \<open>\<^verbatim>\<open>Scanner.scan\<close>: its own frame and, for a line that gives a token, the frame of
  \<^verbatim>\<open>Token(...)\<close> or of \<^verbatim>\<open>self._parse_value\<close>.\<close>

definition frames_scan :: "'f token list \<Rightarrow> nat" where
  "frames_scan tokens = (if tokens = [] then 1 else 2)"

text \<open>\<^verbatim>\<open>load\<close>: its own frame and, one after the other, those of \<^verbatim>\<open>Scanner(text)\<close>,
  \<^verbatim>\<open>scanner.scan()\<close>, \<^verbatim>\<open>Parser(tokens)\<close> and \<^verbatim>\<open>parser.parse()\<close>; the two constructors
  take one frame each, which is not more than \<open>frames_scan\<close> or \<open>frames_parse\<close>.\<close>

definition frames_load :: "(string \<Rightarrow> 'f option) \<Rightarrow> 'f token list \<Rightarrow> nat" where
  "frames_load pf tokens = 1 + max (frames_scan tokens) (frames_parse pf tokens)"

subsection \<open>The dumper\<close>

definition special_chars :: string where
  "special_chars = '':#{}[]&*!|>'' @ [squote, dquote] @ ''%@`''"

text \<open>\<^verbatim>\<open>isinstance(x, (dict, list))\<close>.\<close>

fun is_collection :: "'f val \<Rightarrow> bool" where
  "is_collection (VList xs) = True"
| "is_collection (VDict kvs) = True"
| "is_collection v = False"

text \<open>Truth value of a list or a dict: it is not empty.\<close>

fun truthy :: "'f val \<Rightarrow> bool" where
  "truthy (VList xs) = (xs \<noteq> [])"
| "truthy (VDict kvs) = (kvs \<noteq> [])"
| "truthy v = True"

text \<open>\<^verbatim>\<open>" " * (level * self.indent)\<close>; a negative count gives the empty text.\<close>

definition prefix_of :: "int \<Rightarrow> nat \<Rightarrow> string" where
  "prefix_of w level = replicate (nat (int level * w)) CHR '' ''"

text \<open>
  \<^verbatim>\<open>Dumper.dump\<close>, with the \<^verbatim>\<open>lines\<close> that \<^verbatim>\<open>_dump_list\<close> and \<^verbatim>\<open>_dump_mapping\<close>
  collect before they join them.  \<open>w\<close> is \<^verbatim>\<open>self.indent\<close>.
\<close>

fun
  dumper_dump :: "('f \<Rightarrow> string) \<Rightarrow> int \<Rightarrow> 'f val \<Rightarrow> nat \<Rightarrow> string" and
  dump_list_lines :: "('f \<Rightarrow> string) \<Rightarrow> int \<Rightarrow> 'f val list \<Rightarrow> nat \<Rightarrow> string list" and
  dump_mapping_lines :: "('f \<Rightarrow> string) \<Rightarrow> int \<Rightarrow> (string \<times> 'f val) list \<Rightarrow> nat \<Rightarrow> string list"
where
  "dumper_dump sf w VNull level = ''null''"
| "dumper_dump sf w (VBool b) level = (if b then ''true'' else ''false'')"
| "dumper_dump sf w (VInt i) level = str_int i"
| "dumper_dump sf w (VFloat x) level = sf x"
| "dumper_dump sf w (VStr s) level =
     (if \<exists>c \<in> set special_chars. c \<in> set s then dquote # s @ [dquote] else s)"
| "dumper_dump sf w (VList xs) level =
     (if xs = [] then ''[]'' else join_lines (dump_list_lines sf w xs level))"
| "dumper_dump sf w (VDict kvs) level =
     (if kvs = [] then ''{}'' else join_lines (dump_mapping_lines sf w kvs level))"
| "dump_list_lines sf w [] level = []"
| "dump_list_lines sf w (item # items) level =
     (if is_collection item
      then prefix_of w level @ ''- '' @ lstrip (dumper_dump sf w item (level + 1))
      else prefix_of w level @ ''- '' @ dumper_dump sf w item 0)
     # dump_list_lines sf w items level"
| "dump_mapping_lines sf w [] level = []"
| "dump_mapping_lines sf w ((key, value) # kvs) level =
     (if is_collection value \<and> truthy value
      then [prefix_of w level @ key @ '':'', dumper_dump sf w value (level + 1)]
      else [prefix_of w level @ key @ '': '' @ dumper_dump sf w value 0])
     @ dump_mapping_lines sf w kvs level"

subsection \<open>The entry points \<^verbatim>\<open>load\<close> and \<^verbatim>\<open>dump\<close>\<close>

definition load :: "(string \<Rightarrow> 'f option) \<Rightarrow> string \<Rightarrow> error + 'f val" where
  "load pf text =
     (case scanner_scan pf text of
        Inl e \<Rightarrow> Inl e
      | Inr tokens \<Rightarrow> Inr (parser_parse pf tokens))"

definition dump :: "('f \<Rightarrow> string) \<Rightarrow> 'f val \<Rightarrow> int \<Rightarrow> string" where
  "dump sf data w = dumper_dump sf w data 0"

subsection \<open>A fragment of the float library, for evaluating examples\<close>

text \<open>
  Examples need a concrete \<^verbatim>\<open>float(s)\<close>.  \<open>float_table\<close> names a float by the text
  \<^verbatim>\<open>str\<close> gives for it (so that \<^verbatim>\<open>str\<close> is the identity) and knows three literals;
  it agrees with Python on every text the examples below pass to it.
\<close>

definition float_table :: "string \<Rightarrow> string option" where
  "float_table s = (if s \<in> set [''3.14'', ''1.0'', ''0.5''] then Some s else None)"

definition float_str :: "string \<Rightarrow> string" where
  "float_str x = x"

subsection \<open>Integer literals\<close>

text \<open>The text after an optional leading sign.\<close>

definition strip_sign :: "string \<Rightarrow> string" where
  "strip_sign s = (case s of [] \<Rightarrow> [] | c # cs \<Rightarrow> if c = CHR ''-'' \<or> c = CHR ''+'' then cs else s)"

text \<open>An optional leading sign followed by decimal digits only.\<close>

definition plain_int_literal :: "string \<Rightarrow> bool" where
  "plain_int_literal s = (strip_sign s \<noteq> [] \<and> list_all isdigit (strip_sign s))"

text \<open>An optional leading sign followed by groups of decimal digits, with one
  underscore between two groups.\<close>

definition grouped_int_literal :: "string \<Rightarrow> bool" where
  "grouped_int_literal s =
     (let body = strip_sign s
      in body \<noteq> [] \<and> list_all (\<lambda>c. isdigit c \<or> c = CHR ''_'') body
         \<and> isdigit (hd body) \<and> isdigit (last body) \<and> \<not> contains body ''__'')"

text \<open>The text has no more digits than the interpreter converts under the bound.\<close>

definition within_digit_limit :: "nat \<Rightarrow> string \<Rightarrow> bool" where
  "within_digit_limit max_str_digits s =
     (max_str_digits = 0 \<or> digit_count s \<le> 640 \<or> digit_count s \<le> max_str_digits)"

text \<open>A trimmed fragment to which none of the coercion rules 1 to 6 applies.\<close>

definition no_rule_1_to_6 :: "string \<Rightarrow> bool" where
  "no_rule_1_to_6 v =
     (v \<noteq> []
      \<and> lower v \<notin> set [''true'', ''yes'', ''on'', ''false'', ''no'', ''off'', ''null'', ''~'']
      \<and> \<not> (startswith v [dquote] \<and> endswith v [dquote])
      \<and> \<not> (startswith v [squote] \<and> endswith v [squote]))"


subsection \<open>Lines that give a token, and a deeply nested document\<close>


text \<open>The document of \<open>n\<close> lines \<^verbatim>\<open>k:\<close>, the first not indented and each of the others
  indented by one space more than the line before it, and its tokens from the
  \<open>j\<close>-th on.\<close>

definition nested_doc :: "nat \<Rightarrow> string" where
  "nested_doc n = join_lines (map (\<lambda>i. replicate i CHR '' '' @ ''k:'') [0..<n])"

definition nested_tokens :: "nat \<Rightarrow> nat \<Rightarrow> 'f token list" where
  "nested_tokens j n = map (\<lambda>i. \<lparr>tok = KEY ''k'', line = Suc i, indent = i\<rparr>) [j..<n]"


subsection \<open>What a parse consumes\<close>

fun is_key :: "'f tok \<Rightarrow> bool" where
  "is_key (KEY k) = True"
| "is_key (KEY_VALUE k v) = True"
| "is_key t = False"

fun is_list_item :: "'f tok \<Rightarrow> bool" where
  "is_list_item (LIST_ITEM s) = True"
| "is_list_item t = False"

text \<open>\<open>rest\<close> is what is left of \<open>ts\<close> after a run of tokens of indent at least \<open>b\<close>.\<close>

definition consumes :: "nat \<Rightarrow> 'f token list \<Rightarrow> 'f token list \<Rightarrow> bool" where
  "consumes b ts rest = (\<exists>c. ts = c @ rest \<and> (\<forall>t \<in> set c. b \<le> indent t))"


subsection \<open>Documents that survive a dump and a load\<close>

text \<open>The text of a scalar, which does not depend on the indent width or the level.\<close>

definition render :: "('f \<Rightarrow> string) \<Rightarrow> 'f val \<Rightarrow> string" where
  "render sf a = dumper_dump sf 0 a 0"

text \<open>
  A key that the scanner reads back from the line the dumper writes for it: no
  newline, no leading whitespace, not starting like a comment or a list item, and
  without \<^verbatim>\<open>": "\<close> inside.
\<close>

definition key_ok :: "string \<Rightarrow> bool" where
  "key_ok k =
     (newline \<notin> set k \<and> (k \<noteq> [] \<longrightarrow> \<not> isspace (hd k))
      \<and> \<not> startswith k ''#'' \<and> \<not> startswith k ''- '' \<and> \<not> contains k '': '')"

text \<open>
  The text of a scalar that fits on a line after \<^verbatim>\<open>"- "\<close> or \<^verbatim>\<open>"key: "\<close>: no newline,
  not blank, and not ending (before trailing whitespace) with a colon.
\<close>

definition text_ok :: "string \<Rightarrow> bool" where
  "text_ok r = (newline \<notin> set r \<and> strip r \<noteq> [] \<and> \<not> endswith (strip r) '':'')"

text \<open>The text of a scalar that is a whole document: moreover it does not look like a
  comment, a list item or a key line.\<close>

definition root_text_ok :: "string \<Rightarrow> bool" where
  "root_text_ok r =
     (text_ok r \<and> \<not> startswith (strip r) ''#'' \<and> \<not> startswith (strip r) ''- ''
      \<and> \<not> contains (strip r) '': '')"

text \<open>
  The block documents: a non-empty sequence of scalars, or a non-empty mapping with
  distinct good keys whose values are scalars or again block documents.  \<open>leaf\<close> is
  what is asked of each scalar.
\<close>

fun
  wf_block :: "('f val \<Rightarrow> bool) \<Rightarrow> 'f val \<Rightarrow> bool" and
  wf_entries :: "('f val \<Rightarrow> bool) \<Rightarrow> (string \<times> 'f val) list \<Rightarrow> bool"
where
  "wf_block leaf (VList xs) = (xs \<noteq> [] \<and> (\<forall>x \<in> set xs. \<not> is_collection x \<and> leaf x))"
| "wf_block leaf (VDict kvs) = (kvs \<noteq> [] \<and> distinct (map fst kvs) \<and> wf_entries leaf kvs)"
| "wf_block leaf a = False"
| "wf_entries leaf [] = True"
| "wf_entries leaf ((k, v) # kvs) =
     (key_ok k \<and> (if is_collection v then wf_block leaf v else leaf v) \<and> wf_entries leaf kvs)"

text \<open>A document is a block document or a single scalar, of which \<open>root_leaf\<close> is asked.\<close>

definition wf_doc :: "('f val \<Rightarrow> bool) \<Rightarrow> ('f val \<Rightarrow> bool) \<Rightarrow> 'f val \<Rightarrow> bool" where
  "wf_doc leaf root_leaf v = (if is_collection v then wf_block leaf v else root_leaf v)"

text \<open>The value with every scalar replaced by the coercion of its text.\<close>

fun
  norm :: "(string \<Rightarrow> 'f option) \<Rightarrow> ('f \<Rightarrow> string) \<Rightarrow> 'f val \<Rightarrow> 'f val" and
  norm_entries :: "(string \<Rightarrow> 'f option) \<Rightarrow> ('f \<Rightarrow> string) \<Rightarrow> (string \<times> 'f val) list
                     \<Rightarrow> (string \<times> 'f val) list"
where
  "norm pf sf (VList xs) = VList (map (\<lambda>x. scanner_parse_value pf (render sf x)) xs)"
| "norm pf sf (VDict kvs) = VDict (norm_entries pf sf kvs)"
| "norm pf sf a = scanner_parse_value pf (render sf a)"
| "norm_entries pf sf [] = []"
| "norm_entries pf sf ((k, v) # kvs) = (k, norm pf sf v) # norm_entries pf sf kvs"

text \<open>The tokens of a list of lines, numbered from \<open>n\<close> (the scanner raises no error).\<close>

definition tokens_of :: "(string \<Rightarrow> 'f option) \<Rightarrow> nat \<Rightarrow> string list \<Rightarrow> 'f token list" where
  "tokens_of pf n ls = (case scan_lines pf n ls of Inr ts \<Rightarrow> ts | Inl e \<Rightarrow> [])"

text \<open>The indent of the lines the dumper writes at a level.\<close>

definition ind :: "int \<Rightarrow> nat \<Rightarrow> nat" where
  "ind w level = nat (int level * w)"

text \<open>No token is left, or the next one is less indented than \<open>b\<close>.\<close>

definition below :: "nat \<Rightarrow> 'f token list \<Rightarrow> bool" where
  "below b rest = (case rest of [] \<Rightarrow> True | t # ts \<Rightarrow> indent t < b)"

text \<open>The lines of a dumped mapping and of a dumped sequence of scalars.\<close>

definition entry_lines ::
  "('f \<Rightarrow> string) \<Rightarrow> int \<Rightarrow> (string \<times> 'f val) list \<Rightarrow> nat \<Rightarrow> string list" where
  "entry_lines sf w kvs level = concat (map split_lines (dump_mapping_lines sf w kvs level))"

definition item_lines :: "('f \<Rightarrow> string) \<Rightarrow> int \<Rightarrow> 'f val list \<Rightarrow> nat \<Rightarrow> string list" where
  "item_lines sf w xs L = map (\<lambda>x. prefix_of w L @ ''- '' @ render sf x) xs"

text \<open>
  A scalar is stable when its text fits on a line and coerces back to the scalar
  itself.  A document round-trips when it is a block document, or a single scalar,
  and all its scalars are stable.
\<close>

definition stable_leaf :: "(string \<Rightarrow> 'f option) \<Rightarrow> ('f \<Rightarrow> string) \<Rightarrow> 'f val \<Rightarrow> bool" where
  "stable_leaf pf sf a =
     (text_ok (render sf a) \<and> scanner_parse_value pf (render sf a) = a)"

definition stable_root :: "(string \<Rightarrow> 'f option) \<Rightarrow> ('f \<Rightarrow> string) \<Rightarrow> 'f val \<Rightarrow> bool" where
  "stable_root pf sf a =
     (root_text_ok (render sf a) \<and> scanner_parse_value pf (render sf a) = a)"

definition roundtrips :: "(string \<Rightarrow> 'f option) \<Rightarrow> ('f \<Rightarrow> string) \<Rightarrow> 'f val \<Rightarrow> bool" where
  "roundtrips pf sf v = wf_doc (stable_leaf pf sf) (stable_root pf sf) v"

text \<open>
  A scalar is settled when its text fits on a line and the coercion of that text has
  the same text again (the String \<^verbatim>\<open>42\<close> is settled and not stable).
\<close>

definition settled_leaf :: "(string \<Rightarrow> 'f option) \<Rightarrow> ('f \<Rightarrow> string) \<Rightarrow> 'f val \<Rightarrow> bool" where
  "settled_leaf pf sf a =
     (text_ok (render sf a)
      \<and> render sf (scanner_parse_value pf (render sf a)) = render sf a)"

definition settled_root :: "(string \<Rightarrow> 'f option) \<Rightarrow> ('f \<Rightarrow> string) \<Rightarrow> 'f val \<Rightarrow> bool" where
  "settled_root pf sf a =
     (root_text_ok (render sf a)
      \<and> render sf (scanner_parse_value pf (render sf a)) = render sf a)"

definition settles :: "(string \<Rightarrow> 'f option) \<Rightarrow> ('f \<Rightarrow> string) \<Rightarrow> 'f val \<Rightarrow> bool" where
  "settles pf sf v = wf_doc (settled_leaf pf sf) (settled_root pf sf) v"

text \<open>The document of the module's \<^verbatim>\<open>example_usage\<close>.\<close>

definition example_doc :: "string val" where
  "example_doc =
     VDict [(''name'', VStr ''BlackRoad''), (''version'', VFloat ''1.0''),
            (''features'', VList [VStr ''auth'', VStr ''api'', VStr ''database'']),
            (''config'', VDict [(''debug'', VBool True), (''port'', VInt 8080),
                                (''host'', VStr ''localhost'')])]"

section \<open>Properties\<close>

lemmas str_eval = strip_def lstrip_def rstrip_def isspace_def lower_def lower_char_def
  startswith_def endswith_def contains_def split1_def slice_1_m1_def dquote_def squote_def
  newline_def

lemmas coerce_eval = scanner_parse_value_def py_int_def isdigit_def digit_val_def

lemmas load_eval = load_def scanner_scan_def scan_line_def parser_parse_def
  parser_parse_value.simps parser_parse_mapping.simps parser_parse_scalar_def

subsection \<open>\<^verbatim>\<open>int\<close> reads what \<^verbatim>\<open>str\<close> writes\<close>

lemma underscore_not_digit: "\<not> isdigit CHR ''_''"
  by (simp add: isdigit_def)

lemma digit_char_props:
  assumes "n < 10"
  shows "isdigit (digit_char n)" and "digit_val (digit_char n) = n"
proof -
  from assms have "n \<in> {0, 1, 2, 3, 4, 5, 6, 7, 8, 9}" by auto
  then show "isdigit (digit_char n)" and "digit_val (digit_char n) = n"
    by (auto simp: digit_char_def isdigit_def digit_val_def)
qed

lemma int_digits_all_digits:
  "list_all isdigit ds \<Longrightarrow> ds \<noteq> [] \<Longrightarrow>
     int_digits acc us ds = Some (foldl (\<lambda>a c. 10 * a + digit_val c) acc ds)"
proof (induction ds arbitrary: acc us)
  case Nil
  then show ?case by simp
next
  case (Cons c cs)
  then have c: "isdigit c" "c \<noteq> CHR ''_''" using underscore_not_digit by auto
  show ?case
  proof (cases cs)
    case Nil
    then show ?thesis using c by simp
  next
    case (Cons d ds')
    then show ?thesis using c Cons.IH[of "10 * acc + digit_val c" False] Cons.prems by simp
  qed
qed

lemma str_nat_digits:
  "list_all isdigit (str_nat n) \<and> str_nat n \<noteq> []
   \<and> foldl (\<lambda>a c. 10 * a + digit_val c) 0 (str_nat n) = n"
proof (induction n rule: str_nat.induct)
  case (1 n)
  show ?case
  proof (cases "n < 10")
    case True
    then show ?thesis using digit_char_props[OF True] by (simp add: str_nat.simps[of n])
  next
    case False
    have m: "n mod 10 < 10" by simp
    show ?thesis
      using False "1.IH" digit_char_props[OF m]
      by (simp add: str_nat.simps[of n])
  qed
qed

lemma int_digits_str_nat: "int_digits 0 us (str_nat n) = Some n"
  using int_digits_all_digits[of "str_nat n" 0 us] str_nat_digits[of n] by simp

lemma str_nat_hd: "isdigit (hd (str_nat n))"
  using str_nat_digits[of n] by (cases "str_nat n") auto

lemma py_int_str_int: "py_int (str_int i) = Some i"
proof (cases "i < 0")
  case True
  then show ?thesis
    by (simp add: py_int_def str_int_def int_digits_str_nat)
next
  case False
  obtain c cs where s: "str_nat (nat i) = c # cs"
    using str_nat_digits[of "nat i"] by (cases "str_nat (nat i)") auto
  have "isdigit c" using str_nat_hd[of "nat i"] s by simp
  then have "c \<noteq> CHR ''-''" "c \<noteq> CHR ''+''" by (auto simp: isdigit_def)
  then show ?thesis
    using False s int_digits_str_nat[of True "nat i"]
    by (simp add: py_int_def str_int_def)
qed

lemma str_int_chars: "str_int i \<noteq> [] \<and> (\<forall>c \<in> set (str_int i). isdigit c \<or> c = CHR ''-'')"
  using str_nat_digits[of "nat i"] str_nat_digits[of "nat (- i)"]
  by (auto simp: str_int_def list_all_iff)

subsection \<open>Scalar coercion on the documented examples\<close>

text \<open>
  Claim C4.  Coercion works on the stripped fragment and the first rule that matches
  decides: the empty fragment is Null; otherwise a boolean or null word, in any letter
  case, gives its Boolean or Null; otherwise a fragment that starts and ends with the
  same kind of quote gives the String between them; and when none of these rules
  applies, what \<^verbatim>\<open>int\<close> reads is an Integer, else what \<^verbatim>\<open>float\<close> reads is a Float, else the
  fragment is a String.  Hence the documented results of \<open>load\<close> on one-line documents:
  \<^verbatim>\<open>42\<close> is an Integer whatever \<open>pf\<close> answers on it, \<^verbatim>\<open>3.14\<close> is the Float that the library
  reads from it, and \<^verbatim>\<open>hello\<close>, which the library does not read as a float, is a String.
\<close>

theorem load_scalar_examples:
  assumes "pf ''3.14'' = Some x" and "pf ''hello'' = None"
  shows "load pf ''true'' = Inr (VBool True) \<and> load pf ''Yes'' = Inr (VBool True)
       \<and> load pf ''ON'' = Inr (VBool True)
       \<and> load pf ''no'' = Inr (VBool False) \<and> load pf ''off'' = Inr (VBool False)
       \<and> load pf ''~'' = Inr VNull \<and> load pf ''null'' = Inr VNull
       \<and> load pf ''42'' = Inr (VInt 42)
       \<and> load pf ''3.14'' = Inr (VFloat x)
       \<and> load pf ''hello'' = Inr (VStr ''hello'')
       \<and> (strip v = [] \<longrightarrow> scanner_parse_value pf v = VNull)
       \<and> (strip v \<noteq> [] \<longrightarrow>
            (lower (strip v) \<in> set [''true'', ''yes'', ''on''] \<longrightarrow>
               scanner_parse_value pf v = VBool True)
          \<and> (lower (strip v) \<in> set [''false'', ''no'', ''off''] \<longrightarrow>
               scanner_parse_value pf v = VBool False)
          \<and> (lower (strip v) \<in> set [''null'', ''~''] \<longrightarrow>
               scanner_parse_value pf v = VNull))
       \<and> (no_rule_1_to_6 (strip v) \<longrightarrow>
            (\<forall>i. py_int (strip v) = Some i \<longrightarrow> scanner_parse_value pf v = VInt i)
          \<and> (\<forall>y. py_int (strip v) = None \<and> pf (strip v) = Some y \<longrightarrow>
                  scanner_parse_value pf v = VFloat y)
          \<and> (py_int (strip v) = None \<and> pf (strip v) = None \<longrightarrow>
                  scanner_parse_value pf v = VStr (strip v)))
       \<and> (strip v \<noteq> []
            \<and> lower (strip v) \<notin> set [''true'', ''yes'', ''on'', ''false'', ''no'', ''off'', ''null'', ''~'']
            \<and> (startswith (strip v) [dquote] \<and> endswith (strip v) [dquote]
                \<or> startswith (strip v) [squote] \<and> endswith (strip v) [squote]) \<longrightarrow>
            scanner_parse_value pf v = VStr (slice_1_m1 (strip v)))"
proof -
  have ex: "load pf ''true'' = Inr (VBool True) \<and> load pf ''Yes'' = Inr (VBool True)
       \<and> load pf ''ON'' = Inr (VBool True)
       \<and> load pf ''no'' = Inr (VBool False) \<and> load pf ''off'' = Inr (VBool False)
       \<and> load pf ''~'' = Inr VNull \<and> load pf ''null'' = Inr VNull
       \<and> load pf ''42'' = Inr (VInt 42)
       \<and> load pf ''3.14'' = Inr (VFloat x)
       \<and> load pf ''hello'' = Inr (VStr ''hello'')"
    using assms by (simp add: str_eval coerce_eval load_eval)
  have order: "(strip v = [] \<longrightarrow> scanner_parse_value pf v = VNull)
       \<and> (strip v \<noteq> [] \<longrightarrow>
            (lower (strip v) \<in> set [''true'', ''yes'', ''on''] \<longrightarrow>
               scanner_parse_value pf v = VBool True)
          \<and> (lower (strip v) \<in> set [''false'', ''no'', ''off''] \<longrightarrow>
               scanner_parse_value pf v = VBool False)
          \<and> (lower (strip v) \<in> set [''null'', ''~''] \<longrightarrow>
               scanner_parse_value pf v = VNull))
       \<and> (no_rule_1_to_6 (strip v) \<longrightarrow>
            (\<forall>i. py_int (strip v) = Some i \<longrightarrow> scanner_parse_value pf v = VInt i)
          \<and> (\<forall>y. py_int (strip v) = None \<and> pf (strip v) = Some y \<longrightarrow>
                  scanner_parse_value pf v = VFloat y)
          \<and> (py_int (strip v) = None \<and> pf (strip v) = None \<longrightarrow>
                  scanner_parse_value pf v = VStr (strip v)))
       \<and> (strip v \<noteq> []
            \<and> lower (strip v) \<notin> set [''true'', ''yes'', ''on'', ''false'', ''no'', ''off'', ''null'', ''~'']
            \<and> (startswith (strip v) [dquote] \<and> endswith (strip v) [dquote]
                \<or> startswith (strip v) [squote] \<and> endswith (strip v) [squote]) \<longrightarrow>
            scanner_parse_value pf v = VStr (slice_1_m1 (strip v)))"
    by (auto simp: scanner_parse_value_def Let_def no_rule_1_to_6_def)
  show ?thesis using ex order by blast
qed


theorem load_scalar_examples_witness:
  "float_table ''3.14'' = Some ''3.14'' \<and> float_table ''hello'' = None
   \<and> load float_table ''ON'' = Inr (VBool True)
   \<and> load float_table ''42'' = Inr (VInt 42)
   \<and> load float_table ''3.14'' = Inr (VFloat ''3.14'')
   \<and> load float_table ''hello'' = Inr (VStr ''hello'')
   \<and> no_rule_1_to_6 (strip '' -7 '') \<and> py_int (strip '' -7 '') = Some (- 7)
   \<and> scanner_parse_value float_table '' -7 '' = VInt (- 7)"
proof -
  have a: "float_table ''3.14'' = Some ''3.14''" "float_table ''hello'' = None"
    by (simp_all add: float_table_def)
  have b: "strip '' -7 '' = ''-7''" by (simp add: str_eval)
  have c: "no_rule_1_to_6 ''-7''" "py_int ''-7'' = Some (- 7)"
    by (simp_all add: no_rule_1_to_6_def str_eval py_int_def isdigit_def digit_val_def)
  show ?thesis
    using load_scalar_examples [OF a, of "'' -7 ''"] a c by (simp add: b)
qed

subsection \<open>A lone quote character\<close>

text \<open>
  Claim C10.  A fragment that is one double-quote character starts and ends with a
  double quote, so the quote rule fires and strips it to the empty String; the same
  holds for one single-quote character.
\<close>

theorem lone_quote_is_empty_string:
  "scanner_parse_value pf [dquote] = VStr [] \<and> scanner_parse_value pf [squote] = VStr []"
  by (simp add: str_eval coerce_eval)

theorem lone_quote_is_empty_string_witness:
  "scanner_parse_value float_table [CHR 0x22] = VStr []
   \<and> scanner_parse_value float_table [CHR 0x27] = VStr []"
  using lone_quote_is_empty_string [of float_table] by (simp add: dquote_def squote_def)

subsection \<open>Scalar rendering\<close>

text \<open>
  Claim C7.  The dumper renders Null as \<^verbatim>\<open>null\<close>, a Boolean as \<^verbatim>\<open>true\<close> or \<^verbatim>\<open>false\<close>,
  an Integer as \<^verbatim>\<open>str\<close> of it (a minus sign when negative, then decimal digits, which
  \<^verbatim>\<open>int\<close> reads back as the same Integer), a Float as \<^verbatim>\<open>str\<close> of it, and a String
  verbatim unless it has one of the characters \<^verbatim>\<open>: # { } [ ] & * ! | > ' " % @ `\<close>, in
  which case it is put between two double quotes, its characters unchanged.
\<close>

theorem dump_scalar_rendering:
  "dump sf VNull w = ''null''
   \<and> dump sf (VBool True) w = ''true''
   \<and> dump sf (VBool False) w = ''false''
   \<and> dump sf (VInt i) w = str_int i
   \<and> (\<forall>c \<in> set (dump sf (VInt i) w). isdigit c \<or> c = CHR ''-'')
   \<and> py_int (dump sf (VInt i) w) = Some i
   \<and> dump sf (VFloat x) w = sf x
   \<and> (set s \<inter> (set '':#{}[]&*!|>%@`'' \<union> {squote, dquote}) \<noteq> {}
        \<longrightarrow> dump sf (VStr s) w = [dquote] @ s @ [dquote])
   \<and> (set s \<inter> (set '':#{}[]&*!|>%@`'' \<union> {squote, dquote}) = {}
        \<longrightarrow> dump sf (VStr s) w = s)"
proof -
  have "dump sf (VInt i) w = str_int i" by (simp add: dump_def)
  then have "(\<forall>c \<in> set (dump sf (VInt i) w). isdigit c \<or> c = CHR ''-'')"
    and "py_int (dump sf (VInt i) w) = Some i"
    using str_int_chars[of i] py_int_str_int[of i] by simp_all
  then show ?thesis by (auto simp: dump_def special_chars_def)
qed

theorem dump_scalar_rendering_witness:
  "dump float_str (VInt (- 12)) 2 = ''-12''
   \<and> py_int ''-12'' = Some (- 12)
   \<and> dump float_str (VFloat ''0.5'') 2 = ''0.5''
   \<and> dump float_str (VStr ''a#b'') 2 = CHR 0x22 # ''a#b'' @ [CHR 0x22]
   \<and> dump float_str (VStr ''plain text'') 2 = ''plain text''"
  using dump_scalar_rendering [of float_str 2 "- 12" "''0.5''" "''a#b''"]
        dump_scalar_rendering [of float_str 2 "- 12" "''0.5''" "''plain text''"]
  by (simp add: dquote_def squote_def float_str_def str_int_def str_nat.simps digit_char_def)

subsection \<open>Duplicate keys\<close>

lemma dict_set_keys: "k \<in> fst ` set d \<Longrightarrow> map fst (dict_set d k v) = map fst d"
  by (induction d) force+

lemma dict_set_keys_new: "k \<notin> fst ` set d \<Longrightarrow> map fst (dict_set d k v) = map fst d @ [k]"
  by (induction d) auto

lemma map_of_dict_set: "map_of (dict_set d k v) = (map_of d)(k \<mapsto> v)"
  by (induction d) (auto simp: fun_eq_iff)

text \<open>
  Claim C9.  When the mapping loop meets a token whose key is already in the mapping
  built so far, it assigns under that key and goes on, without error.  A \<^verbatim>\<open>KEY_VALUE\<close>
  token assigns its value.  A \<^verbatim>\<open>KEY\<close> token assigns Null when it is the last token or
  the next token is not deeper than it, and otherwise the value of the child parse at
  the indent of the next token, the loop going on from the tokens the child parse has
  left.  Whatever the value assigned, the mapping keeps its keys in their order, has
  the new value under that key, and every other entry is unchanged.
\<close>

theorem duplicate_key_overwrites:
  assumes "key \<in> fst ` set result" and "\<not> indent t < base_indent"
  shows "(tok t = KEY_VALUE key value \<longrightarrow>
            parser_parse_mapping pf base_indent (t # ts) result
              = parser_parse_mapping pf base_indent ts (dict_set result key value))
       \<and> (tok t = KEY key \<and> ts = [] \<longrightarrow>
            parser_parse_mapping pf base_indent (t # ts) result
              = (dict_set result key VNull, []))
       \<and> (\<forall>n ns. tok t = KEY key \<and> ts = n # ns \<and> \<not> indent t < indent n \<longrightarrow>
            parser_parse_mapping pf base_indent (t # ts) result
              = parser_parse_mapping pf base_indent ts (dict_set result key VNull))
       \<and> (\<forall>n ns. tok t = KEY key \<and> ts = n # ns \<and> indent t < indent n \<longrightarrow>
            parser_parse_mapping pf base_indent (t # ts) result
              = parser_parse_mapping pf base_indent
                  (snd (parser_parse_value pf (indent n) ts))
                  (dict_set result key (fst (parser_parse_value pf (indent n) ts))))
       \<and> (\<forall>v. map fst (dict_set result key v) = map fst result
              \<and> map_of (dict_set result key v) key = Some v
              \<and> (\<forall>k'. k' \<noteq> key \<longrightarrow> map_of (dict_set result key v) k' = map_of result k'))"
proof (intro conjI allI impI)
  assume "tok t = KEY_VALUE key value"
  then show "parser_parse_mapping pf base_indent (t # ts) result
               = parser_parse_mapping pf base_indent ts (dict_set result key value)"
    using assms(2) by (simp add: parser_parse_mapping.simps)
next
  assume "tok t = KEY key \<and> ts = []"
  then show "parser_parse_mapping pf base_indent (t # ts) result = (dict_set result key VNull, [])"
    using assms(2) by (simp add: parser_parse_mapping.simps)
next
  fix n ns
  assume "tok t = KEY key \<and> ts = n # ns \<and> \<not> indent t < indent n"
  then show "parser_parse_mapping pf base_indent (t # ts) result
               = parser_parse_mapping pf base_indent ts (dict_set result key VNull)"
    using assms(2) by (simp add: parser_parse_mapping.simps)
next
  fix n ns
  assume "tok t = KEY key \<and> ts = n # ns \<and> indent t < indent n"
  then show "parser_parse_mapping pf base_indent (t # ts) result
               = parser_parse_mapping pf base_indent
                   (snd (parser_parse_value pf (indent n) ts))
                   (dict_set result key (fst (parser_parse_value pf (indent n) ts)))"
    using assms(2) by (simp add: parser_parse_mapping.simps split: prod.splits)
next
  fix v
  show "map fst (dict_set result key v) = map fst result"
    using assms(1) by (rule dict_set_keys)
  show "map_of (dict_set result key v) key = Some v"
    by (simp add: map_of_dict_set)
next
  fix v k'
  assume "k' \<noteq> key"
  then show "map_of (dict_set result key v) k' = map_of result k'"
    by (simp add: map_of_dict_set)
qed

theorem duplicate_key_overwrites_witness:
  "parser_parse_mapping float_table 0
       [\<lparr>tok = KEY_VALUE ''a'' (VInt 3), line = 3, indent = 0\<rparr>]
       [(''a'', VInt 1), (''b'', VInt 2)]
     = ([(''a'', VInt 3), (''b'', VInt 2)], [])
   \<and> parser_parse_mapping float_table 0
       [\<lparr>tok = KEY ''a'', line = 3, indent = 0\<rparr>]
       [(''a'', VInt 1), (''b'', VInt 2)]
     = ([(''a'', VNull), (''b'', VInt 2)], [])
   \<and> parser_parse_mapping float_table 0
       [\<lparr>tok = KEY ''a'', line = 3, indent = 0\<rparr>,
        \<lparr>tok = KEY_VALUE ''c'' (VInt 4), line = 4, indent = 0\<rparr>]
       [(''a'', VInt 1), (''b'', VInt 2)]
     = ([(''a'', VNull), (''b'', VInt 2), (''c'', VInt 4)], [])
   \<and> parser_parse_mapping float_table 0
       [\<lparr>tok = KEY ''a'', line = 3, indent = 0\<rparr>,
        \<lparr>tok = LIST_ITEM ''x'', line = 4, indent = 2\<rparr>]
       [(''a'', VInt 1), (''b'', VInt 2)]
     = ([(''a'', VList [VStr ''x'']), (''b'', VInt 2)], [])
   \<and> load float_table ''a: 1\<newline>b: 2\<newline>a: 3'' = Inr (VDict [(''a'', VInt 3), (''b'', VInt 2)])
   \<and> load float_table ''a: 1\<newline>b: 2\<newline>a:'' = Inr (VDict [(''a'', VNull), (''b'', VInt 2)])
   \<and> load float_table ''a: 1\<newline>b: 2\<newline>a:\<newline>  - x''
        = Inr (VDict [(''a'', VList [VStr ''x'']), (''b'', VInt 2)])"
proof -
  have l1: "load float_table ''a: 1\<newline>b: 2\<newline>a: 3'' = Inr (VDict [(''a'', VInt 3), (''b'', VInt 2)])"
    by (simp add: str_eval coerce_eval load_eval float_table_def)
  have l2: "load float_table ''a: 1\<newline>b: 2\<newline>a:'' = Inr (VDict [(''a'', VNull), (''b'', VInt 2)])"
    by (simp add: str_eval coerce_eval load_eval float_table_def)
  have l3: "load float_table ''a: 1\<newline>b: 2\<newline>a:\<newline>  - x''
        = Inr (VDict [(''a'', VList [VStr ''x'']), (''b'', VInt 2)])"
    by (simp add: str_eval coerce_eval load_eval float_table_def)
  have pv: "parser_parse_value float_table 2 [\<lparr>tok = LIST_ITEM ''x'', line = 4, indent = 2\<rparr>]
              = (VList [VStr ''x''], [])"
    by (simp add: parser_parse_value.simps parser_parse_scalar_def str_eval coerce_eval
          float_table_def)
  show ?thesis
    using duplicate_key_overwrites [of "''a''" "[(''a'', VInt 1), (''b'', VInt 2)]"
        "\<lparr>tok = KEY_VALUE ''a'' (VInt 3), line = 3, indent = 0\<rparr>" 0 "VInt 3" float_table "[]"]
      duplicate_key_overwrites [of "''a''" "[(''a'', VInt 1), (''b'', VInt 2)]"
        "\<lparr>tok = KEY ''a'', line = 3, indent = 0\<rparr>" 0 "VInt 3" float_table "[]"]
      duplicate_key_overwrites [of "''a''" "[(''a'', VInt 1), (''b'', VInt 2)]"
        "\<lparr>tok = KEY ''a'', line = 3, indent = 0\<rparr>" 0 "VInt 3" float_table
        "[\<lparr>tok = KEY_VALUE ''c'' (VInt 4), line = 4, indent = 0\<rparr>]"]
      duplicate_key_overwrites [of "''a''" "[(''a'', VInt 1), (''b'', VInt 2)]"
        "\<lparr>tok = KEY ''a'', line = 3, indent = 0\<rparr>" 0 "VInt 3" float_table
        "[\<lparr>tok = LIST_ITEM ''x'', line = 4, indent = 2\<rparr>]"]
      l1 l2 l3
    by (simp add: pv parser_parse_mapping.simps)
qed

subsection \<open>Facts about searching and splitting\<close>

lemma startswith_iff: "startswith s p \<longleftrightarrow> (\<exists>r. s = p @ r)"
proof
  assume "startswith s p"
  then have "s = p @ drop (length p) s"
    unfolding startswith_def by (metis append_take_drop_id)
  then show "\<exists>r. s = p @ r" ..
next
  assume "\<exists>r. s = p @ r"
  then show "startswith s p" by (auto simp: startswith_def)
qed

lemma find_sub_Some:
  "find_sub s p = Some i \<Longrightarrow> s = take i s @ p @ drop (i + length p) s"
proof (induction s arbitrary: i)
  case Nil
  then show ?case by (simp split: if_splits)
next
  case (Cons c cs)
  show ?case
  proof (cases "startswith (c # cs) p")
    case True
    then have "i = 0" using Cons.prems by simp
    moreover from True obtain r where "c # cs = p @ r" by (auto simp: startswith_iff)
    ultimately show ?thesis by simp
  next
    case False
    then obtain j where j: "find_sub cs p = Some j" "i = Suc j"
      using Cons.prems by auto
    from Cons.IH[OF j(1)] show ?thesis using j(2) by simp
  qed
qed


lemma find_sub_first:
  "find_sub s p = Some i \<Longrightarrow> j < i \<Longrightarrow> \<not> startswith (drop j s) p"
proof (induction s arbitrary: i j)
  case Nil
  then show ?case by (simp split: if_splits)
next
  case (Cons c cs)
  show ?case
  proof (cases "startswith (c # cs) p")
    case True
    then show ?thesis using Cons.prems by simp
  next
    case False
    then obtain i' where i': "find_sub cs p = Some i'" "i = Suc i'"
      using Cons.prems by auto
    show ?thesis
    proof (cases j)
      case 0
      then show ?thesis using False by simp
    next
      case (Suc j')
      then show ?thesis using Cons.IH[OF i'(1), of j'] i'(2) Cons.prems(2) by simp
    qed
  qed
qed

lemma find_sub_None:
  "find_sub s p = None \<Longrightarrow> s \<noteq> a @ p @ b"
proof (induction s arbitrary: a)
  case Nil
  then show ?case by (simp split: if_splits)
next
  case (Cons c cs)
  then have ns: "\<not> startswith (c # cs) p" and rec: "find_sub cs p = None"
    by (auto split: if_splits)
  show ?case
  proof (cases a)
    case Nil
    then show ?thesis using ns by (simp add: startswith_iff)
  next
    case (Cons d ds)
    then show ?thesis using Cons.IH[OF rec, of ds] by simp
  qed
qed


lemma contains_iff: "contains s p \<longleftrightarrow> (\<exists>a b. s = a @ p @ b)"
proof
  assume "contains s p"
  then obtain i where "find_sub s p = Some i" by (auto simp: contains_def)
  from find_sub_Some[OF this] show "\<exists>a b. s = a @ p @ b" by blast
next
  assume "\<exists>a b. s = a @ p @ b"
  then obtain a b where "s = a @ p @ b" by blast
  then have "find_sub s p \<noteq> None" using find_sub_None[of s p a b] by blast
  then show "contains s p" by (simp add: contains_def)
qed

lemma find_sub_bound: "find_sub s p = Some i \<Longrightarrow> i \<le> length s"
  by (induction s arbitrary: i) (auto split: if_splits)

lemma find_sub_least:
  assumes "find_sub s p = Some i" and "s = a @ p @ b"
  shows "i \<le> length a"
proof (rule ccontr)
  assume "\<not> i \<le> length a"
  then have "length a < i" by simp
  from find_sub_first[OF assms(1) this] show False
    using assms(2) by (simp add: startswith_iff)
qed

lemma split1_contains:
  assumes "contains s p"
  shows "\<exists>key value. split1 s p = [key, value] \<and> s = key @ p @ value
           \<and> (\<forall>a b. s = a @ p @ b \<longrightarrow> length key \<le> length a)"
proof -
  from assms obtain i where i: "find_sub s p = Some i" by (auto simp: contains_def)
  have eq: "s = take i s @ p @ drop (i + length p) s" by (rule find_sub_Some[OF i])
  have len: "length (take i s) = i" using find_sub_bound[OF i] by simp
  have least: "\<forall>a b. s = a @ p @ b \<longrightarrow> i \<le> length a" using find_sub_least[OF i] by blast
  have sp: "split1 s p = [take i s, drop (i + length p) s]" using i by (simp add: split1_def)
  show ?thesis using eq len least sp by metis
qed

subsection \<open>The scanner raises no error\<close>

lemma scan_line_total: "\<exists>r. scan_line pf n l = Inr r"
proof (cases "contains (strip l) '': ''")
  case True
  from split1_contains[OF True] obtain key v where "split1 (strip l) '': '' = [key, v]" by blast
  then show ?thesis by (simp add: scan_line_def Let_def)
next
  case False
  then show ?thesis by (simp add: scan_line_def Let_def)
qed

lemma scan_lines_total: "\<exists>ts. scan_lines pf n ls = Inr ts"
proof (induction ls arbitrary: n)
  case Nil
  then show ?case by simp
next
  case (Cons l ls)
  obtain r where r: "scan_line pf n l = Inr r" using scan_line_total by blast
  obtain ts where ts: "scan_lines pf (Suc n) ls = Inr ts" using Cons.IH by blast
  show ?case by (simp add: r ts)
qed

lemma scan_lines_blank:
  "\<forall>l \<in> set ls. strip l = [] \<or> startswith (strip l) ''#'' \<Longrightarrow> scan_lines pf n ls = Inr []"
  by (induction ls arbitrary: n) (auto simp: scan_line_def)

lemma set_split_lines: "l \<in> set (split_lines s) \<Longrightarrow> set l \<subseteq> set s"
proof (induction s arbitrary: l)
  case Nil
  then show ?case by simp
next
  case (Cons c cs)
  show ?case
  proof (cases "c = newline")
    case True
    then show ?thesis using Cons by auto
  next
    case False
    then show ?thesis using Cons by (fastforce split: list.splits)
  qed
qed

lemma endswith_single: "endswith s [c] \<longleftrightarrow> s \<noteq> [] \<and> last s = c"
  by (cases s rule: rev_cases) (auto simp: endswith_def)

lemma strip_all_space: "\<forall>c \<in> set s. isspace c \<Longrightarrow> strip s = []"
proof -
  assume "\<forall>c \<in> set s. isspace c"
  then have "lstrip s = []" by (simp add: lstrip_def)
  then show ?thesis by (simp add: strip_def rstrip_def)
qed

text \<open>
  With frames enough for every call, \<open>load\<close> returns a value on every text: the
  scanner's only unpacking of a split is reached when the separator occurs, and the
  parser is a total function.  On the empty text, on a text of whitespace only, and
  on a text whose lines are all blank or comments, the value is Null.
\<close>

lemma load_returns:
  "(\<exists>v. load pf text = Inr v)
   \<and> (text = [] \<longrightarrow> load pf text = Inr VNull)
   \<and> ((\<forall>c \<in> set text. isspace c) \<longrightarrow> load pf text = Inr VNull)
   \<and> ((\<forall>l \<in> set (split_lines text). strip l = [] \<or> startswith (strip l) ''#'')
        \<longrightarrow> load pf text = Inr VNull)"
proof -
  have total: "\<exists>v. load pf text = Inr v"
    using scan_lines_total[of pf 1 "split_lines text"]
    by (auto simp: load_def scanner_scan_def)
  have blank: "load pf text = Inr VNull"
    if "\<forall>l \<in> set (split_lines text). strip l = [] \<or> startswith (strip l) ''#''"
    using scan_lines_blank[OF that, of pf 1]
    by (simp add: load_def scanner_scan_def parser_parse_def)
  have ws: "load pf text = Inr VNull" if "\<forall>c \<in> set text. isspace c"
  proof (rule blank, intro ballI disjI1)
    fix l assume "l \<in> set (split_lines text)"
    then have "set l \<subseteq> set text" by (rule set_split_lines)
    then show "strip l = []" using that by (intro strip_all_space) blast
  qed
  have empty: "load pf text = Inr VNull" if "text = []"
    using ws that by simp
  show ?thesis using total blank ws empty by blast
qed

subsection \<open>Key lines\<close>

text \<open>
  Claim C8.  For a line that is neither blank, nor a comment, nor a list item, with
  \<open>content\<close> its stripped text: if \<open>content\<close> ends with a colon the token is \<^verbatim>\<open>KEY\<close>
  with \<open>content\<close> minus that colon, whether or not \<open>content\<close> contains \<^verbatim>\<open>": "\<close>; if
  \<open>content\<close> contains \<^verbatim>\<open>": "\<close> and does not end with a colon the token is \<^verbatim>\<open>KEY_VALUE\<close>
  of the text before the first \<^verbatim>\<open>": "\<close> and the coercion of the text after it; and a
  \<^verbatim>\<open>KEY_VALUE\<close> token arises in no other case.
\<close>

theorem scan_line_key_classification:
  assumes "strip l \<noteq> []" and "\<not> startswith (strip l) ''#''" and "\<not> startswith (strip l) ''- ''"
  shows "(endswith (strip l) '':'' \<longrightarrow>
            strip l = butlast (strip l) @ '':'' \<and>
            scan_line pf n l = Inr (Some \<lparr>tok = KEY (butlast (strip l)), line = n,
                                           indent = length l - length (lstrip l)\<rparr>))
       \<and> (contains (strip l) '': '' \<and> \<not> endswith (strip l) '':'' \<longrightarrow>
            (\<exists>key value.
                strip l = key @ '': '' @ value
              \<and> (\<forall>a b. strip l = a @ '': '' @ b \<longrightarrow> length key \<le> length a)
              \<and> scan_line pf n l = Inr (Some \<lparr>tok = KEY_VALUE key (scanner_parse_value pf value),
                                               line = n, indent = length l - length (lstrip l)\<rparr>)))
       \<and> ((\<exists>t key value. scan_line pf n l = Inr (Some t) \<and> tok t = KEY_VALUE key value) \<longrightarrow>
            contains (strip l) '': '' \<and> \<not> endswith (strip l) '':'')"
proof (intro conjI impI)
  assume e: "endswith (strip l) '':''"
  then show "strip l = butlast (strip l) @ '':''"
    by (simp add: endswith_single) (metis append_butlast_last_id)
  show "scan_line pf n l = Inr (Some \<lparr>tok = KEY (butlast (strip l)), line = n,
                                           indent = length l - length (lstrip l)\<rparr>)"
    using assms e by (simp add: scan_line_def Let_def)
next
  assume c: "contains (strip l) '': '' \<and> \<not> endswith (strip l) '':''"
  from split1_contains[of "strip l" "'': ''"] c obtain key v where
    kv: "split1 (strip l) '': '' = [key, v]" "strip l = key @ '': '' @ v"
        "\<forall>a b. strip l = a @ '': '' @ b \<longrightarrow> length key \<le> length a" by blast
  have "scan_line pf n l = Inr (Some \<lparr>tok = KEY_VALUE key (scanner_parse_value pf v),
                                               line = n, indent = length l - length (lstrip l)\<rparr>)"
    using assms c kv(1) by (simp add: scan_line_def Let_def)
  with kv show "\<exists>key value.
                strip l = key @ '': '' @ value
              \<and> (\<forall>a b. strip l = a @ '': '' @ b \<longrightarrow> length key \<le> length a)
              \<and> scan_line pf n l = Inr (Some \<lparr>tok = KEY_VALUE key (scanner_parse_value pf value),
                                               line = n, indent = length l - length (lstrip l)\<rparr>)"
    by blast
next
  assume "\<exists>t key value. scan_line pf n l = Inr (Some t) \<and> tok t = KEY_VALUE key value"
  then obtain t key v where t: "scan_line pf n l = Inr (Some t)" "tok t = KEY_VALUE key v" by blast
  show "contains (strip l) '': ''"
    using t assms by (auto simp: scan_line_def Let_def split: if_splits list.splits)
  show "\<not> endswith (strip l) '':''"
    using t assms by (auto simp: scan_line_def Let_def split: if_splits list.splits)
qed

theorem scan_line_key_classification_witness:
  "scan_line float_table 7 ''  a: b:''
     = Inr (Some \<lparr>tok = KEY ''a: b'', line = 7, indent = 2\<rparr>)
   \<and> (\<exists>key value. ''k: a: b'' = key @ '': '' @ value
         \<and> (\<forall>a b. ''k: a: b'' = a @ '': '' @ b \<longrightarrow> length key \<le> length a)
         \<and> scan_line float_table 1 ''k: a: b''
             = Inr (Some \<lparr>tok = KEY_VALUE key (scanner_parse_value float_table value),
                          line = 1, indent = 0\<rparr>))"
proof -
  have a: "strip ''  a: b:'' = ''a: b:''" "lstrip ''  a: b:'' = ''a: b:''"
    and b: "strip ''k: a: b'' = ''k: a: b''" "lstrip ''k: a: b'' = ''k: a: b''"
    by (simp_all add: str_eval)
  show ?thesis
    using scan_line_key_classification [of "''  a: b:''" float_table 7]
      scan_line_key_classification [of "''k: a: b''" float_table 1]
    by (simp add: a b startswith_def endswith_def contains_def)
qed

subsection \<open>Which fragments coerce to an Integer\<close>

lemma contains_Cons: "contains (c # cs) p \<longleftrightarrow> startswith (c # cs) p \<or> contains cs p"
  by (auto simp: contains_def)

lemma contains_Nil: "contains [] p \<longleftrightarrow> p = []"
  by (simp add: contains_def)

lemma int_digits_accepts:
  "int_digits acc us body \<noteq> None \<longleftrightarrow>
     list_all (\<lambda>c. isdigit c \<or> c = CHR ''_'') body \<and> \<not> contains body ''__''
     \<and> (body = [] \<longrightarrow> \<not> us)
     \<and> (body \<noteq> [] \<longrightarrow> isdigit (last body) \<and> (us \<longrightarrow> hd body \<noteq> CHR ''_''))"
proof (induction body arbitrary: acc us)
  case Nil
  then show ?case by (simp add: contains_Nil)
next
  case (Cons c cs)
  show ?case
  proof (cases "c = CHR ''_''")
    case True
    show ?thesis
    proof (cases us)
      case True
      then show ?thesis using \<open>c = CHR ''_''\<close> by simp
    next
      case False
      show ?thesis
      proof (cases cs)
        case Nil
        then show ?thesis using \<open>c = CHR ''_''\<close> False by (simp add: underscore_not_digit)
      next
        case (Cons d ds)
        then show ?thesis
          using \<open>c = CHR ''_''\<close> False Cons.IH[of acc True]
          by (auto simp: contains_Cons startswith_def)
      qed
    qed
  next
    case False
    show ?thesis
    proof (cases "isdigit c")
      case True
      then show ?thesis
        using False Cons.IH[of "10 * acc + digit_val c" False]
        by (auto simp: contains_Cons startswith_def)
    next
      case nd: False
      then show ?thesis using False by simp
    qed
  qed
qed

lemma int_digits_accepts_True:
  "(\<exists>n. int_digits acc True body = Some n) \<longleftrightarrow>
     body \<noteq> [] \<and> list_all (\<lambda>c. isdigit c \<or> c = CHR ''_'') body
     \<and> isdigit (hd body) \<and> isdigit (last body) \<and> \<not> contains body ''__''"
proof -
  have "isdigit (hd body) \<longleftrightarrow> hd body \<noteq> CHR ''_''"
    if "list_all (\<lambda>c. isdigit c \<or> c = CHR ''_'') body" "body \<noteq> []"
    using that by (cases body) (auto simp: underscore_not_digit)
  then show ?thesis
    using int_digits_accepts[of acc True body] unfolding not_None_eq by blast
qed

lemma py_int_accepts: "(\<exists>i. py_int s = Some i) \<longleftrightarrow> grouped_int_literal s"
proof (cases s)
  case Nil
  then show ?thesis by (simp add: py_int_def grouped_int_literal_def strip_sign_def)
next
  case (Cons c cs)
  show ?thesis
  proof (cases "c = CHR ''-'' \<or> c = CHR ''+''")
    case True
    then have "(\<exists>i. py_int s = Some i) \<longleftrightarrow> (\<exists>n. int_digits 0 True cs = Some n)"
      using Cons by (auto simp: py_int_def)
    also have "\<dots> \<longleftrightarrow> grouped_int_literal s"
      using True Cons
      by (simp add: int_digits_accepts_True grouped_int_literal_def strip_sign_def Let_def)
    finally show ?thesis .
  next
    case False
    then have "(\<exists>i. py_int s = Some i) \<longleftrightarrow> (\<exists>n. int_digits 0 True s = Some n)"
      using Cons by (auto simp: py_int_def)
    also have "\<dots> \<longleftrightarrow> grouped_int_literal s"
    proof -
      have "strip_sign s = s" using False Cons by (simp add: strip_sign_def)
      then show ?thesis
        unfolding grouped_int_literal_def Let_def by (simp only: int_digits_accepts_True)
    qed
    finally show ?thesis .
  qed
qed

lemma py_int_lim_within:
  "within_digit_limit m s \<Longrightarrow> py_int_lim m s = py_int s"
  by (auto simp: within_digit_limit_def py_int_lim_def)

lemma py_int_lim_past:
  "\<not> within_digit_limit m s \<Longrightarrow> py_int_lim m s = None"
  by (auto simp: within_digit_limit_def py_int_lim_def)

lemma py_int_lim_off: "py_int_lim 0 s = py_int s"
  by (simp add: py_int_lim_def)

lemma scanner_parse_value_lim_off: "scanner_parse_value_lim 0 pf v = scanner_parse_value pf v"
  by (simp add: scanner_parse_value_lim_def scanner_parse_value_def py_int_lim_off Let_def)

lemma scanner_parse_value_lim_within:
  "within_digit_limit m (strip v) \<Longrightarrow> scanner_parse_value_lim m pf v = scanner_parse_value pf v"
  by (simp add: scanner_parse_value_lim_def scanner_parse_value_def py_int_lim_within Let_def)

lemma coerce_lim_rule_7_on:
  assumes "strip v = v" and "no_rule_1_to_6 v"
  shows "scanner_parse_value_lim m pf v =
          (case py_int_lim m v of Some i \<Rightarrow> VInt i
           | None \<Rightarrow> (case pf v of Some x \<Rightarrow> VFloat x | None \<Rightarrow> VStr v))"
  using assms by (auto simp: scanner_parse_value_lim_def no_rule_1_to_6_def Let_def)

lemma replicate_digits:
  assumes "isdigit c"
  shows "strip (replicate (Suc n) c) = replicate (Suc n) c"
    and "no_rule_1_to_6 (replicate (Suc n) c)"
    and "grouped_int_literal (replicate (Suc n) c)"
    and "digit_count (replicate (Suc n) c) = Suc n"
proof -
  have ns: "\<not> isspace c" using assms by (auto simp: isdigit_def isspace_def)
  have c: "c \<noteq> CHR ''-''" "c \<noteq> CHR ''+''" "c \<noteq> CHR ''_''" "c \<noteq> dquote" "c \<noteq> squote"
    using assms by (auto simp: isdigit_def dquote_def squote_def)
  have dw: "dropWhile isspace (replicate (Suc n) c) = replicate (Suc n) c"
    using ns by simp
  show "strip (replicate (Suc n) c) = replicate (Suc n) c"
    by (simp only: strip_def lstrip_def rstrip_def dw rev_replicate)
  have lc: "lower_char c = c" using assms by (simp add: lower_char_def isdigit_def)
  have "lower (replicate (Suc n) c) = c # replicate n c"
    by (simp add: lower_def lc)
  moreover have "c \<noteq> CHR ''t''" "c \<noteq> CHR ''y''" "c \<noteq> CHR ''o''" "c \<noteq> CHR ''f''" "c \<noteq> CHR ''n''"
      "c \<noteq> CHR ''~''"
    using assms by (auto simp: isdigit_def)
  ultimately show "no_rule_1_to_6 (replicate (Suc n) c)"
    using c by (simp add: no_rule_1_to_6_def startswith_def)
  have "\<not> contains (replicate (Suc n) c) ''__''"
  proof
    assume "contains (replicate (Suc n) c) ''__''"
    then obtain a b where "replicate (Suc n) c = a @ ''__'' @ b" unfolding contains_iff by blast
    then have "CHR ''_'' \<in> set (replicate (Suc n) c)" by (metis append_Cons in_set_conv_decomp)
    then show False using c by simp
  qed
  moreover have "strip_sign (replicate (Suc n) c) = replicate (Suc n) c"
    using c by (simp add: strip_sign_def)
  moreover have "last (replicate (Suc n) c) = c" by (simp only: last_replicate)
  ultimately show "grouped_int_literal (replicate (Suc n) c)"
    using assms unfolding grouped_int_literal_def Let_def
    by (simp add: list_all_iff)
  show "digit_count (replicate (Suc n) c) = Suc n"
    using assms by (simp add: digit_count_def)
qed

text \<open>A literal of 4301 digits under the default bound of 4300: \<^verbatim>\<open>int\<close> raises, and the
  fragment is what \<^verbatim>\<open>float\<close> makes of it; with the bound off it is an Integer.\<close>

lemma long_literal_past_limit:
  "pf (replicate 4301 CHR ''7'') = Some x \<Longrightarrow>
     scanner_parse_value_lim 4300 pf (replicate 4301 CHR ''7'') = VFloat x"
  "\<exists>i. scanner_parse_value_lim 0 pf (replicate 4301 CHR ''7'') = VInt i"
proof -
  have d: "isdigit CHR ''7''" by (simp add: isdigit_def)
  have e: "replicate 4301 CHR ''7'' = replicate (Suc 4300) CHR ''7''" by simp
  note r = replicate_digits[OF d, of 4300, folded e]
  have "\<not> within_digit_limit 4300 (replicate 4301 CHR ''7'')"
    by (simp add: within_digit_limit_def r(4))
  then show "scanner_parse_value_lim 4300 pf (replicate 4301 CHR ''7'') = VFloat x"
    if "pf (replicate 4301 CHR ''7'') = Some x"
    using that by (simp add: coerce_lim_rule_7_on[OF r(1,2)] py_int_lim_past)
  obtain i where "py_int (replicate 4301 CHR ''7'') = Some i"
    using r(3) py_int_accepts by blast
  then show "\<exists>i. scanner_parse_value_lim 0 pf (replicate 4301 CHR ''7'') = VInt i"
    by (simp add: coerce_lim_rule_7_on[OF r(1,2)] py_int_lim_off)
qed

text \<open>
  Claim C6, as amended.  For a trimmed fragment (of code points below 256, where the
  decimal digits are \<^verbatim>\<open>0\<close> to \<^verbatim>\<open>9\<close>) to which none of the rules 1 to 6 applies, and
  for every bound \<open>max_str_digits\<close> on the digits of \<^verbatim>\<open>int\<close>, coercion gives an Integer
  exactly when the fragment is an optional sign followed by decimal digits in groups,
  two groups being separated by one underscore (\<^verbatim>\<open>int\<close> accepts \<^verbatim>\<open>1_000\<close>), and has
  no more digits than the bound lets through.  Within the bound the result is that
  of the function with the bound off; past it the fragment is a literal of \<^verbatim>\<open>float\<close>
  or a String.
\<close>

theorem coercion_integer_iff:
  assumes "strip v = v" and "no_rule_1_to_6 v"
  shows "((\<exists>i. scanner_parse_value_lim max_str_digits pf v = VInt i)
            \<longleftrightarrow> grouped_int_literal v \<and> within_digit_limit max_str_digits v)
       \<and> (within_digit_limit max_str_digits v \<longrightarrow>
            scanner_parse_value_lim max_str_digits pf v = scanner_parse_value pf v)
       \<and> (\<not> within_digit_limit max_str_digits v \<longrightarrow>
            scanner_parse_value_lim max_str_digits pf v
              = (case pf v of Some x \<Rightarrow> VFloat x | None \<Rightarrow> VStr v))"
proof (intro conjI impI)
  note eq = coerce_lim_rule_7_on[OF assms, of max_str_digits pf]
  show "(\<exists>i. scanner_parse_value_lim max_str_digits pf v = VInt i)
          \<longleftrightarrow> grouped_int_literal v \<and> within_digit_limit max_str_digits v"
  proof (cases "within_digit_limit max_str_digits v")
    case True
    then have "(\<exists>i. scanner_parse_value_lim max_str_digits pf v = VInt i) \<longleftrightarrow> (\<exists>i. py_int v = Some i)"
      unfolding eq by (auto simp: py_int_lim_within split: option.splits)
    then show ?thesis using True by (simp only: py_int_accepts) simp
  next
    case False
    then show ?thesis unfolding eq by (auto simp: py_int_lim_past split: option.splits)
  qed
  show "scanner_parse_value_lim max_str_digits pf v = scanner_parse_value pf v"
    if "within_digit_limit max_str_digits v"
    using that assms(1) by (simp add: scanner_parse_value_lim_within)
  show "scanner_parse_value_lim max_str_digits pf v
          = (case pf v of Some x \<Rightarrow> VFloat x | None \<Rightarrow> VStr v)"
    if "\<not> within_digit_limit max_str_digits v"
    using that unfolding eq by (simp add: py_int_lim_past)
qed

text \<open>The claim as stated fails on \<^verbatim>\<open>1_0\<close>, which is not made of a sign and digits only
  and coerces to the Integer 10, with the bound off and with the bound 4300.\<close>

theorem coercion_integer_digits_only_counterexample:
  "strip ''1_0'' = ''1_0'' \<and> no_rule_1_to_6 ''1_0''
   \<and> scanner_parse_value float_table ''1_0'' = VInt 10 \<and> \<not> plain_int_literal ''1_0''
   \<and> scanner_parse_value_lim 4300 float_table ''1_0'' = VInt 10"
  by (simp add: str_eval coerce_eval no_rule_1_to_6_def plain_int_literal_def strip_sign_def
        scanner_parse_value_lim_def py_int_lim_def digit_count_def)

theorem coercion_integer_iff_witness:
  "strip ''-1_000'' = ''-1_000'' \<and> no_rule_1_to_6 ''-1_000'' \<and> grouped_int_literal ''-1_000''
   \<and> within_digit_limit 4300 ''-1_000''
   \<and> (\<exists>i. scanner_parse_value_lim 4300 float_table ''-1_000'' = VInt i)
   \<and> scanner_parse_value_lim 4300 float_table ''-1_000'' = scanner_parse_value float_table ''-1_000''
   \<and> strip ''1__0'' = ''1__0'' \<and> no_rule_1_to_6 ''1__0'' \<and> \<not> grouped_int_literal ''1__0''
   \<and> \<not> (\<exists>i. scanner_parse_value_lim 4300 float_table ''1__0'' = VInt i)"
proof -
  have a: "strip ''-1_000'' = ''-1_000''" "no_rule_1_to_6 ''-1_000''"
    by (simp_all add: str_eval no_rule_1_to_6_def)
  have g: "grouped_int_literal ''-1_000''"
    by (simp add: grouped_int_literal_def strip_sign_def isdigit_def contains_def startswith_def)
  have w: "within_digit_limit 4300 ''-1_000''"
    by (simp add: within_digit_limit_def digit_count_def isdigit_def)
  have b: "strip ''1__0'' = ''1__0''" "no_rule_1_to_6 ''1__0''"
    by (simp_all add: str_eval no_rule_1_to_6_def)
  have h: "\<not> grouped_int_literal ''1__0''"
    by (simp add: grouped_int_literal_def strip_sign_def isdigit_def contains_def startswith_def)
  note t1 = coercion_integer_iff [OF a, of 4300 float_table]
  note t2 = coercion_integer_iff [OF b, of 4300 float_table]
  have i1: "\<exists>i. scanner_parse_value_lim 4300 float_table ''-1_000'' = VInt i"
    using t1 g w by blast
  have i2: "scanner_parse_value_lim 4300 float_table ''-1_000''
              = scanner_parse_value float_table ''-1_000''"
    using t1 w by blast
  have i3: "\<not> (\<exists>i. scanner_parse_value_lim 4300 float_table ''1__0'' = VInt i)"
    using t2 h by blast
  show ?thesis using a b g h w i1 i2 i3 by blast
qed

subsection \<open>The extent of a child parse\<close>

lemma consumes_refl: "consumes b ts ts"
  by (simp add: consumes_def)

lemma consumes_step: "b \<le> indent t \<Longrightarrow> consumes b ts rest \<Longrightarrow> consumes b (t # ts) rest"
  unfolding consumes_def by (metis Cons_eq_appendI set_ConsD)

lemma consumes_trans: "consumes b ts mid \<Longrightarrow> consumes b mid rest \<Longrightarrow> consumes b ts rest"
  unfolding consumes_def by (metis Un_iff append.assoc set_append)

lemma consumes_mono: "b \<le> b' \<Longrightarrow> consumes b' ts rest \<Longrightarrow> consumes b ts rest"
  unfolding consumes_def using le_trans by blast

lemma consumes_length: "consumes b ts rest \<Longrightarrow> length rest \<le> length ts"
  by (auto simp: consumes_def)

lemma parse_list_consumes: "consumes b ts (snd (parser_parse_list pf b ts r))"
  by (induction ts arbitrary: r)
     (auto simp: consumes_refl intro: consumes_step split: tok.splits)

lemma parse_list_stops:
  "snd (parser_parse_list pf b ts r) = u # us \<Longrightarrow> indent u < b \<or> \<not> is_list_item (tok u)"
  by (induction ts arbitrary: r) (auto split: if_splits tok.splits)

lemma parse_list_run:
  "snd (parser_parse_list pf b ts r)
     = dropWhile (\<lambda>t. b \<le> indent t \<and> is_list_item (tok t)) ts"
  by (induction ts arbitrary: r) (auto split: tok.splits)

lemma parse_consumes:
  "ts \<noteq> [] \<longrightarrow> b \<le> indent (hd ts) \<longrightarrow> consumes b ts (snd (parser_parse_value pf b ts))"
  "consumes b ts (snd (parser_parse_mapping pf b ts r))"
proof (induction pf b ts and pf b ts r rule: parser_parse_value_parser_parse_mapping.induct)
  case (1 pf base_indent)
  then show ?case by simp
next
  case (2 pf base_indent t ts)
  show ?case
  proof (cases "tok t")
    case (LIST_ITEM s)
    then show ?thesis
      using parse_list_consumes[of base_indent "t # ts" pf "[]"]
      by (auto simp: parser_parse_value.simps split: prod.splits simp del: parser_parse_list.simps)
  next
    case (KEY k)
    then show ?thesis using "2.IH"(1)[OF KEY]
      by (auto simp: parser_parse_value.simps split: prod.splits)
  next
    case (KEY_VALUE k v)
    then show ?thesis using "2.IH"(2)[OF KEY_VALUE]
      by (auto simp: parser_parse_value.simps split: prod.splits)
  next
    case (VALUE v)
    then show ?thesis
      by (auto simp: parser_parse_value.simps consumes_refl intro: consumes_step)
  qed
next
  case (3 pf base_indent result)
  then show ?case by (simp add: parser_parse_mapping.simps consumes_refl)
next
  case (4 pf base_indent t ts result)
  show ?case
  proof (cases "indent t < base_indent")
    case True
    then show ?thesis by (simp add: parser_parse_mapping.simps consumes_refl)
  next
    case ge: False
    then have le: "base_indent \<le> indent t" by simp
    show ?thesis
    proof (cases "tok t")
      case (LIST_ITEM s)
      then show ?thesis using ge by (simp add: parser_parse_mapping.simps consumes_refl)
    next
      case (VALUE v)
      then show ?thesis using ge by (simp add: parser_parse_mapping.simps consumes_refl)
    next
      case (KEY_VALUE k v)
      then show ?thesis using ge "4.IH"(5)[OF ge KEY_VALUE] le
        by (simp add: parser_parse_mapping.simps consumes_step)
    next
      case (KEY k)
      show ?thesis
      proof (cases ts)
        case Nil
        then show ?thesis using ge KEY "4.IH"(1)[OF ge KEY Nil] le
          by (simp add: parser_parse_mapping.simps consumes_step)
      next
        case (Cons n ns)
        show ?thesis
        proof (cases "indent t < indent n")
          case False
          then show ?thesis using ge KEY Cons "4.IH"(4)[OF ge KEY Cons False] le
            by (simp add: parser_parse_mapping.simps consumes_step)
        next
          case True
          obtain v rest where pv: "parser_parse_value pf (indent n) ts = (v, rest)"
            by (cases "parser_parse_value pf (indent n) ts")
          have "consumes (indent n) ts rest"
            using "4.IH"(2)[OF ge KEY Cons True] pv Cons by simp
          then have c1: "consumes base_indent ts rest"
            using True le by (intro consumes_mono[of base_indent "indent n"]) auto
          have c2: "consumes base_indent rest
                      (snd (parser_parse_mapping pf base_indent rest (dict_set result k v)))"
            using "4.IH"(3)[OF ge KEY Cons True pv[symmetric]] .
          have "parser_parse_mapping pf base_indent (t # ts) result
                  = parser_parse_mapping pf base_indent rest (dict_set result k v)"
            using ge KEY Cons True pv by (simp add: parser_parse_mapping.simps)
          then show ?thesis
            using consumes_step[OF le consumes_trans[OF c1 c2]] by simp
        qed
      qed
    qed
  qed
qed

lemma parse_mapping_stops:
  "snd (parser_parse_mapping pf b ts r) = u # us \<Longrightarrow> indent u < b \<or> \<not> is_key (tok u)"
proof (induction ts arbitrary: r rule: length_induct)
  case (1 ts)
  have IH: "indent u < b \<or> \<not> is_key (tok u)"
    if "length ys < length ts" "snd (parser_parse_mapping pf b ys r') = u # us" for ys r'
    using "1.IH" that by blast
  show ?case
  proof (cases ts)
    case Nil
    then show ?thesis using "1.prems" by (simp add: parser_parse_mapping.simps)
  next
    case (Cons t ts')
    show ?thesis
    proof (cases "indent t < b")
      case True
      then show ?thesis using "1.prems" Cons by (simp add: parser_parse_mapping.simps)
    next
      case ge: False
      show ?thesis
      proof (cases "tok t")
        case (LIST_ITEM s)
        then show ?thesis using ge "1.prems" Cons by (auto simp: parser_parse_mapping.simps)
      next
        case (VALUE v)
        then show ?thesis using ge "1.prems" Cons by (auto simp: parser_parse_mapping.simps)
      next
        case (KEY_VALUE k v)
        then have "parser_parse_mapping pf b ts r = parser_parse_mapping pf b ts' (dict_set r k v)"
          using ge Cons by (simp add: parser_parse_mapping.simps)
        then show ?thesis using IH[of ts' "dict_set r k v"] "1.prems" Cons by simp
      next
        case (KEY k)
        show ?thesis
        proof (cases "ts' \<noteq> [] \<and> indent t < indent (hd ts')")
          case False
          then have "parser_parse_mapping pf b ts r = parser_parse_mapping pf b ts' (dict_set r k VNull)"
            using ge Cons KEY by (cases ts') (auto simp: parser_parse_mapping.simps)
          then show ?thesis using IH[of ts' "dict_set r k VNull"] "1.prems" Cons by simp
        next
          case True
          then obtain n ns where ns: "ts' = n # ns" "indent t < indent n" by (cases ts') auto
          obtain v rest where pv: "parser_parse_value pf (indent n) ts' = (v, rest)"
            by (cases "parser_parse_value pf (indent n) ts'")
          have "consumes (indent n) ts' rest"
            using parse_consumes(1)[of ts' "indent n" pf] pv ns by simp
          then have "length rest < length ts" using Cons consumes_length by fastforce
          moreover have "parser_parse_mapping pf b ts r = parser_parse_mapping pf b rest (dict_set r k v)"
            using ge Cons KEY ns pv by (simp add: parser_parse_mapping.simps)
          ultimately show ?thesis using IH[of rest "dict_set r k v"] "1.prems" by simp
        qed
      qed
    qed
  qed
qed


lemma parse_mapping_first_consumed:
  assumes "\<not> indent t < b" and "is_key (tok t)"
  shows "length (snd (parser_parse_mapping pf b (t # ts) r)) \<le> length ts"
proof (cases "tok t")
  case (LIST_ITEM s)
  then show ?thesis using assms by simp
next
  case (VALUE v)
  then show ?thesis using assms by simp
next
  case (KEY_VALUE k v)
  then show ?thesis
    using assms consumes_length[OF parse_consumes(2)[of b ts pf "dict_set r k v"]]
    by (simp add: parser_parse_mapping.simps)
next
  case (KEY k)
  show ?thesis
  proof (cases "ts \<noteq> [] \<and> indent t < indent (hd ts)")
    case False
    then have "parser_parse_mapping pf b (t # ts) r
                 = parser_parse_mapping pf b ts (dict_set r k VNull)"
      using assms KEY by (cases ts) (auto simp: parser_parse_mapping.simps)
    then show ?thesis
      using consumes_length[OF parse_consumes(2)[of b ts pf "dict_set r k VNull"]] by simp
  next
    case True
    then obtain n ns where ns: "ts = n # ns" "indent t < indent n" by (cases ts) auto
    obtain v rest where pv: "parser_parse_value pf (indent n) ts = (v, rest)"
      by (cases "parser_parse_value pf (indent n) ts")
    have "consumes (indent n) ts rest"
      using parse_consumes(1)[of ts "indent n" pf] pv ns by simp
    then have l1: "length rest \<le> length ts" by (rule consumes_length)
    have "parser_parse_mapping pf b (t # ts) r
            = parser_parse_mapping pf b rest (dict_set r k v)"
      using assms KEY ns pv by (simp add: parser_parse_mapping.simps)
    then show ?thesis
      using consumes_length[OF parse_consumes(2)[of b rest pf "dict_set r k v"]] l1 by simp
  qed
qed

lemma dropWhile_append_suffix: "\<exists>pre. dropWhile P (c @ rest) = pre @ dropWhile P rest"
proof (induction c)
  case Nil
  then show ?case by simp
next
  case (Cons x c)
  show ?case
  proof (cases "P x")
    case True
    then show ?thesis using Cons by simp
  next
    case False
    have "x # c @ rest = (x # c @ takeWhile P rest) @ dropWhile P rest" by simp
    then show ?thesis using False by (metis append_Cons dropWhile.simps(2))
  qed
qed

lemma parse_mapping_run:
  "\<exists>pre. dropWhile (\<lambda>t. b \<le> indent t \<and> is_key (tok t)) ts
            = pre @ snd (parser_parse_mapping pf b ts r)"
proof (induction ts arbitrary: r rule: length_induct)
  case (1 ts)
  let ?P = "\<lambda>t. b \<le> indent t \<and> is_key (tok t)"
  have IH: "\<exists>pre. dropWhile ?P ys = pre @ snd (parser_parse_mapping pf b ys r')"
    if "length ys < length ts" for ys r'
    using "1.IH" that by blast
  show ?case
  proof (cases ts)
    case Nil
    then show ?thesis by (simp add: parser_parse_mapping.simps)
  next
    case (Cons t ts')
    show ?thesis
    proof (cases "indent t < b")
      case True
      then show ?thesis using Cons by (simp add: parser_parse_mapping.simps)
    next
      case ge: False
      show ?thesis
      proof (cases "tok t")
        case (LIST_ITEM s)
        then show ?thesis using ge Cons by (simp add: parser_parse_mapping.simps)
      next
        case (VALUE v)
        then show ?thesis using ge Cons by (simp add: parser_parse_mapping.simps)
      next
        case (KEY_VALUE k v)
        then have "parser_parse_mapping pf b ts r = parser_parse_mapping pf b ts' (dict_set r k v)"
          using ge Cons by (simp add: parser_parse_mapping.simps)
        moreover have "dropWhile ?P ts = dropWhile ?P ts'" using ge Cons KEY_VALUE by simp
        ultimately show ?thesis using IH[of ts' "dict_set r k v"] Cons by simp
      next
        case (KEY k)
        have dw: "dropWhile ?P ts = dropWhile ?P ts'" using ge Cons KEY by simp
        show ?thesis
        proof (cases "ts' \<noteq> [] \<and> indent t < indent (hd ts')")
          case False
          then have "parser_parse_mapping pf b ts r = parser_parse_mapping pf b ts' (dict_set r k VNull)"
            using ge Cons KEY by (cases ts') (auto simp: parser_parse_mapping.simps)
          then show ?thesis using IH[of ts' "dict_set r k VNull"] Cons dw by simp
        next
          case True
          then obtain n ns where ns: "ts' = n # ns" "indent t < indent n" by (cases ts') auto
          obtain v rest where pv: "parser_parse_value pf (indent n) ts' = (v, rest)"
            by (cases "parser_parse_value pf (indent n) ts'")
          have "consumes (indent n) ts' rest"
            using parse_consumes(1)[of ts' "indent n" pf] pv ns by simp
          then obtain c where c: "ts' = c @ rest" by (auto simp: consumes_def)
          then have "length rest < length ts" using Cons by simp
          then obtain pre1 where p1:
            "dropWhile ?P rest = pre1 @ snd (parser_parse_mapping pf b rest (dict_set r k v))"
            using IH[of rest "dict_set r k v"] by blast
          obtain pre2 where p2: "dropWhile ?P ts' = pre2 @ dropWhile ?P rest"
            using dropWhile_append_suffix[of ?P c rest] c by auto
          have "parser_parse_mapping pf b ts r = parser_parse_mapping pf b rest (dict_set r k v)"
            using ge Cons KEY ns pv by (simp add: parser_parse_mapping.simps)
          then have "dropWhile ?P ts
                       = (pre2 @ pre1) @ snd (parser_parse_mapping pf b ts r)"
            using dw p1 p2 by simp
          then show ?thesis by blast
        qed
      qed
    qed
  qed
qed

text \<open>
  Claim C5, as amended.  In a mapping parse with base indent \<open>base_indent\<close>, let a
  \<^verbatim>\<open>KEY\<close> token \<open>k\<close> that the loop accepts be followed by a token \<open>n\<close> of greater indent.
  The loop continues on what the child parse at \<open>indent n\<close> leaves.  The child parse
  consumes at least \<open>n\<close>, and every token it consumes has indent at least \<open>indent n\<close>,
  hence greater than \<open>base_indent\<close>.  A \<^verbatim>\<open>VALUE\<close> child consumes \<open>n\<close> alone.  A sequence
  child consumes exactly the longest run, from \<open>n\<close> on, of list items of indent at
  least \<open>indent n\<close>: it stops at the end of the tokens or before the first token that
  is below \<open>indent n\<close> or is not a list item.  A mapping child consumes at least the
  longest run, from \<open>n\<close> on, of keys of indent at least \<open>indent n\<close>, and the token it
  stops before, if there is one, is below \<open>indent n\<close> or is not a key; this need not
  be the first such token after \<open>n\<close>, because the child parses of its own keys consume
  tokens of any kind.  In each case the token the child stops before may be deeper
  than \<open>base_indent\<close>.
\<close>

theorem child_parse_extent:
  assumes "tok k = KEY key" and "base_indent \<le> indent k" and "indent k < indent n"
  shows "parser_parse_mapping pf base_indent (k # n # ts) result
           = parser_parse_mapping pf base_indent
               (snd (parser_parse_value pf (indent n) (n # ts)))
               (dict_set result key (fst (parser_parse_value pf (indent n) (n # ts))))
       \<and> (\<exists>consumed. n # ts = consumed @ snd (parser_parse_value pf (indent n) (n # ts))
             \<and> consumed \<noteq> []
             \<and> (\<forall>t \<in> set consumed. indent n \<le> indent t \<and> base_indent < indent t))
       \<and> (\<forall>v. tok n = VALUE v \<longrightarrow> snd (parser_parse_value pf (indent n) (n # ts)) = ts)
       \<and> (is_list_item (tok n) \<longrightarrow>
             snd (parser_parse_value pf (indent n) (n # ts))
               = dropWhile (\<lambda>t. indent n \<le> indent t \<and> is_list_item (tok t)) (n # ts))
       \<and> (is_key (tok n) \<longrightarrow>
             (\<exists>more. dropWhile (\<lambda>t. indent n \<le> indent t \<and> is_key (tok t)) (n # ts)
                        = more @ snd (parser_parse_value pf (indent n) (n # ts))))
       \<and> (\<forall>u us. snd (parser_parse_value pf (indent n) (n # ts)) = u # us \<longrightarrow>
             (is_list_item (tok n) \<longrightarrow> indent u < indent n \<or> \<not> is_list_item (tok u))
           \<and> (is_key (tok n) \<longrightarrow> indent u < indent n \<or> \<not> is_key (tok u)))"
proof (intro conjI allI impI)
  show "parser_parse_mapping pf base_indent (k # n # ts) result
           = parser_parse_mapping pf base_indent
               (snd (parser_parse_value pf (indent n) (n # ts)))
               (dict_set result key (fst (parser_parse_value pf (indent n) (n # ts))))"
    using assms by (simp add: parser_parse_mapping.simps split: prod.splits)
next
  let ?rest = "snd (parser_parse_value pf (indent n) (n # ts))"
  from parse_consumes(1)[of "n # ts" "indent n" pf]
  obtain c where c: "n # ts = c @ ?rest" "\<forall>t \<in> set c. indent n \<le> indent t"
    by (auto simp: consumes_def)
  have shorter: "length ?rest \<le> length ts"
  proof (cases "tok n")
    case (VALUE v)
    then show ?thesis by (simp add: parser_parse_value.simps)
  next
    case (LIST_ITEM s)
    then show ?thesis
      using parser_parse_list_length[of pf "indent n" ts "[parser_parse_scalar pf s]"]
      by (auto simp: parser_parse_value.simps split: prod.splits)
  next
    case (KEY k')
    then show ?thesis
      using parse_mapping_first_consumed[of n "indent n" pf ts "[]"]
      by (auto simp: parser_parse_value.simps split: prod.splits)
  next
    case (KEY_VALUE k' v)
    then show ?thesis
      using parse_mapping_first_consumed[of n "indent n" pf ts "[]"]
      by (auto simp: parser_parse_value.simps split: prod.splits)
  qed
  then have "c \<noteq> []" using c(1) by (cases c) auto
  then show "\<exists>consumed. n # ts = consumed @ ?rest \<and> consumed \<noteq> []
             \<and> (\<forall>t \<in> set consumed. indent n \<le> indent t \<and> base_indent < indent t)"
    using c assms(2,3) by (intro exI[of _ c]) auto
next
  fix v assume "tok n = VALUE v"
  then show "snd (parser_parse_value pf (indent n) (n # ts)) = ts"
    by (simp add: parser_parse_value.simps)
next
  assume "is_list_item (tok n)"
  then obtain s where s: "tok n = LIST_ITEM s" by (cases "tok n") auto
  have "snd (parser_parse_value pf (indent n) (n # ts))
          = snd (parser_parse_list pf (indent n) (n # ts) [])"
    using s by (simp add: parser_parse_value.simps split: prod.splits del: parser_parse_list.simps)
  then show "snd (parser_parse_value pf (indent n) (n # ts))
               = dropWhile (\<lambda>t. indent n \<le> indent t \<and> is_list_item (tok t)) (n # ts)"
    by (simp only: parse_list_run)
next
  assume "is_key (tok n)"
  then have "snd (parser_parse_value pf (indent n) (n # ts))
               = snd (parser_parse_mapping pf (indent n) (n # ts) [])"
    by (cases "tok n") (simp_all add: parser_parse_value.simps split: prod.splits)
  then show "\<exists>more. dropWhile (\<lambda>t. indent n \<le> indent t \<and> is_key (tok t)) (n # ts)
                      = more @ snd (parser_parse_value pf (indent n) (n # ts))"
    using parse_mapping_run[of "indent n" "n # ts" pf "[]"] by simp
next
  fix u us
  assume r: "snd (parser_parse_value pf (indent n) (n # ts)) = u # us" and "is_list_item (tok n)"
  then show "indent u < indent n \<or> \<not> is_list_item (tok u)"
    using parse_list_stops[of pf "indent n" "n # ts" "[]" u us]
    by (cases "tok n") (auto simp: parser_parse_value.simps split: prod.splits simp del: parser_parse_list.simps)
next
  fix u us
  assume r: "snd (parser_parse_value pf (indent n) (n # ts)) = u # us" and "is_key (tok n)"
  then show "indent u < indent n \<or> \<not> is_key (tok u)"
    using parse_mapping_stops[of pf "indent n" "n # ts" "[]" u us]
    by (cases "tok n") (auto simp: parser_parse_value.simps split: prod.splits)
qed

theorem child_parse_extent_witness:
  "parser_parse_mapping float_table 0
      [\<lparr>tok = KEY ''a'', line = 1, indent = 0\<rparr>,
       \<lparr>tok = LIST_ITEM ''x'', line = 2, indent = 4\<rparr>,
       \<lparr>tok = KEY_VALUE ''b'' (VInt 1), line = 3, indent = 2\<rparr>] []
     = ([(''a'', VList [VStr ''x'']), (''b'', VInt 1)], [])
   \<and> snd (parser_parse_value float_table 4
             [\<lparr>tok = LIST_ITEM ''x'', line = 2, indent = 4\<rparr>,
              \<lparr>tok = KEY_VALUE ''b'' (VInt 1), line = 3, indent = 2\<rparr>])
       = [\<lparr>tok = KEY_VALUE ''b'' (VInt 1), line = 3, indent = 2\<rparr>]
   \<and> parser_parse_mapping float_table 0
      [\<lparr>tok = KEY ''a'', line = 1, indent = 0\<rparr>,
       \<lparr>tok = KEY ''b'', line = 2, indent = 2\<rparr>,
       \<lparr>tok = LIST_ITEM ''x'', line = 3, indent = 4\<rparr>,
       \<lparr>tok = KEY_VALUE ''c'' (VInt 1), line = 4, indent = 2\<rparr>,
       \<lparr>tok = KEY_VALUE ''d'' (VInt 2), line = 5, indent = 0\<rparr>] []
     = ([(''a'', VDict [(''b'', VList [VStr ''x'']), (''c'', VInt 1)]), (''d'', VInt 2)], [])
   \<and> snd (parser_parse_value float_table 2
      [\<lparr>tok = KEY ''b'', line = 2, indent = 2\<rparr>,
       \<lparr>tok = LIST_ITEM ''x'', line = 3, indent = 4\<rparr>,
       \<lparr>tok = KEY_VALUE ''c'' (VInt 1), line = 4, indent = 2\<rparr>,
       \<lparr>tok = KEY_VALUE ''d'' (VInt 2), line = 5, indent = 0\<rparr>])
     = [\<lparr>tok = KEY_VALUE ''d'' (VInt 2), line = 5, indent = 0\<rparr>]"
proof -
  have pv: "parser_parse_value float_table 4
             [\<lparr>tok = LIST_ITEM ''x'', line = 2, indent = 4\<rparr>,
              \<lparr>tok = KEY_VALUE ''b'' (VInt 1), line = 3, indent = 2\<rparr>]
         = (VList [VStr ''x''], [\<lparr>tok = KEY_VALUE ''b'' (VInt 1), line = 3, indent = 2\<rparr>])"
    by (simp add: parser_parse_value.simps parser_parse_scalar_def str_eval coerce_eval
          float_table_def)
  have pm: "parser_parse_value float_table 2
      [\<lparr>tok = KEY ''b'', line = 2, indent = 2\<rparr>,
       \<lparr>tok = LIST_ITEM ''x'', line = 3, indent = 4\<rparr>,
       \<lparr>tok = KEY_VALUE ''c'' (VInt 1), line = 4, indent = 2\<rparr>,
       \<lparr>tok = KEY_VALUE ''d'' (VInt 2), line = 5, indent = 0\<rparr>]
     = (VDict [(''b'', VList [VStr ''x'']), (''c'', VInt 1)],
        [\<lparr>tok = KEY_VALUE ''d'' (VInt 2), line = 5, indent = 0\<rparr>])"
    by (simp add: parser_parse_value.simps parser_parse_mapping.simps parser_parse_scalar_def
          str_eval coerce_eval float_table_def)
  show ?thesis
    using child_parse_extent [of "\<lparr>tok = KEY ''a'', line = 1, indent = 0\<rparr>" "''a''" 0
        "\<lparr>tok = LIST_ITEM ''x'', line = 2, indent = 4\<rparr>" float_table
        "[\<lparr>tok = KEY_VALUE ''b'' (VInt 1), line = 3, indent = 2\<rparr>]" "[]"]
      child_parse_extent [of "\<lparr>tok = KEY ''a'', line = 1, indent = 0\<rparr>" "''a''" 0
        "\<lparr>tok = KEY ''b'', line = 2, indent = 2\<rparr>" float_table
        "[\<lparr>tok = LIST_ITEM ''x'', line = 3, indent = 4\<rparr>,
          \<lparr>tok = KEY_VALUE ''c'' (VInt 1), line = 4, indent = 2\<rparr>,
          \<lparr>tok = KEY_VALUE ''d'' (VInt 2), line = 5, indent = 0\<rparr>]" "[]"]
    by (simp add: pv pm parser_parse_mapping.simps)
qed

text \<open>
  The claim as stated fails on the tokens of the document \<^verbatim>\<open>a:\<close>, \<^verbatim>\<open>  hello\<close>,
  \<^verbatim>\<open>  b: 1\<close>: the child parse of \<open>a\<close> takes the one \<^verbatim>\<open>VALUE\<close> token and stops before a
  token of indent 2, which is not at most the base indent 0.
\<close>

theorem child_parse_stops_at_base_counterexample:
  "scanner_scan float_table ''a:\<newline>  hello\<newline>  b: 1''
     = Inr [\<lparr>tok = KEY ''a'', line = 1, indent = 0\<rparr>,
            \<lparr>tok = VALUE (VStr ''hello''), line = 2, indent = 2\<rparr>,
            \<lparr>tok = KEY_VALUE ''b'' (VInt 1), line = 3, indent = 2\<rparr>]
   \<and> snd (parser_parse_value float_table 2
             [\<lparr>tok = VALUE (VStr ''hello''), line = 2, indent = 2\<rparr>,
              \<lparr>tok = KEY_VALUE ''b'' (VInt 1), line = 3, indent = 2\<rparr>])
       = [\<lparr>tok = KEY_VALUE ''b'' (VInt 1), line = 3, indent = 2\<rparr>]
   \<and> \<not> indent \<lparr>tok = KEY_VALUE ''b'' (VInt 1 :: string val), line = 3, indent = 2\<rparr> \<le> 0
   \<and> load float_table ''a:\<newline>  hello\<newline>  b: 1''
       = Inr (VDict [(''a'', VStr ''hello''), (''b'', VInt 1)])"
  by (simp add: str_eval coerce_eval load_eval float_table_def)

section \<open>Dumping and loading again\<close>

subsection \<open>Stripping and splitting\<close>

lemma lstrip_unique:
  assumes "\<forall>c \<in> set a. isspace c" and "m \<noteq> []" and "\<not> isspace (hd m)"
  shows "lstrip (a @ m) = m"
proof -
  have "dropWhile isspace (a @ m) = dropWhile isspace m"
    by (intro dropWhile_append2) (use assms(1) in auto)
  also have "\<dots> = m" using assms(2,3) by (cases m) auto
  finally show ?thesis by (simp add: lstrip_def)
qed

lemma rstrip_unique:
  assumes "\<forall>c \<in> set b. isspace c" and "m \<noteq> []" and "\<not> isspace (last m)"
  shows "rstrip (m @ b) = m"
proof -
  have "dropWhile isspace (rev b @ rev m) = dropWhile isspace (rev m)"
    by (intro dropWhile_append2) (use assms(1) in auto)
  also have "\<dots> = rev m" using assms(2,3) by (cases m rule: rev_cases) auto
  finally show ?thesis by (simp add: rstrip_def)
qed

lemma strip_unique:
  assumes "\<forall>c \<in> set a. isspace c" and "\<forall>c \<in> set b. isspace c"
      and "m \<noteq> []" and "\<not> isspace (hd m)" and "\<not> isspace (last m)"
  shows "strip (a @ m @ b) = m" and "lstrip (a @ m @ b) = m @ b"
    and "length (a @ m @ b) - length (lstrip (a @ m @ b)) = length a"
proof -
  show l: "lstrip (a @ m @ b) = m @ b"
    using lstrip_unique[of a "m @ b"] assms by simp
  show "strip (a @ m @ b) = m"
    unfolding strip_def l using rstrip_unique[OF assms(2,3,5)] .
  show "length (a @ m @ b) - length (lstrip (a @ m @ b)) = length a"
    unfolding l by simp
qed

lemma strip_decomp:
  "\<exists>a b. r = a @ strip r @ b \<and> (\<forall>c \<in> set a. isspace c) \<and> (\<forall>c \<in> set b. isspace c)"
proof -
  let ?a = "takeWhile isspace r"
  let ?l = "dropWhile isspace r"
  let ?b = "rev (takeWhile isspace (rev ?l))"
  have "?l = rev (dropWhile isspace (rev ?l)) @ ?b"
    by (metis rev_append rev_rev_ident takeWhile_dropWhile_id)
  then have "r = ?a @ strip r @ ?b"
    by (simp add: strip_def lstrip_def rstrip_def)
  moreover have "\<forall>c \<in> set ?a. isspace c" by (auto dest: set_takeWhileD)
  moreover have "\<forall>c \<in> set ?b. isspace c" by (auto dest: set_takeWhileD)
  ultimately show ?thesis by blast
qed

lemma strip_ends:
  assumes "strip r \<noteq> []"
  shows "\<not> isspace (hd (strip r))" and "\<not> isspace (last (strip r))"
proof -
  let ?l = "dropWhile isspace r"
  have ne: "dropWhile isspace (rev ?l) \<noteq> []"
    using assms by (simp add: strip_def lstrip_def rstrip_def)
  have "\<not> isspace (hd (dropWhile isspace (rev ?l)))"
    using ne by (rule hd_dropWhile)
  then show "\<not> isspace (last (strip r))"
    using ne by (simp add: strip_def lstrip_def rstrip_def last_rev)
  have lne: "?l \<noteq> []" using ne by (metis dropWhile.simps(1) rev.simps(1))
  then have hl: "\<not> isspace (hd ?l)" by (rule hd_dropWhile)
  have "strip r = rev (dropWhile isspace (rev ?l))"
    by (simp add: strip_def lstrip_def rstrip_def)
  moreover have "?l = rev (dropWhile isspace (rev ?l)) @ rev (takeWhile isspace (rev ?l))"
    by (metis rev_append rev_rev_ident takeWhile_dropWhile_id)
  ultimately have "?l = strip r @ rev (takeWhile isspace (rev ?l))" by simp
  then have "hd ?l = hd (strip r)" using assms by (metis hd_append2)
  then show "\<not> isspace (hd (strip r))" using hl by simp
qed

lemma strip_strip: "strip (strip r) = strip r"
proof (cases "strip r = []")
  case True
  have "strip [] = []" by (simp add: strip_def lstrip_def rstrip_def)
  then show ?thesis by (simp only: True)
next
  case False
  then show ?thesis
    using strip_unique(1)[of "[]" "[]" "strip r"] strip_ends[OF False] by simp
qed

lemma coerce_strip_cong:
  "strip x = strip y \<Longrightarrow> scanner_parse_value pf x = scanner_parse_value pf y"
  by (simp add: scanner_parse_value_def)

lemma split_lines_nonempty: "split_lines s \<noteq> []"
  by (induction s) (auto split: list.splits)

lemma split_lines_append_nl:
  "split_lines (a @ newline # b) = split_lines a @ split_lines b"
proof (induction a)
  case Nil
  then show ?case by simp
next
  case (Cons c a)
  then show ?case
    using split_lines_nonempty[of a] by (cases "split_lines a") auto
qed

lemma split_lines_no_newline: "newline \<notin> set s \<Longrightarrow> split_lines s = [s]"
  by (induction s) auto

lemma split_join_lines:
  "chunks \<noteq> [] \<Longrightarrow> split_lines (join_lines chunks) = concat (map split_lines chunks)"
proof (induction chunks rule: join_lines.induct)
  case 1
  then show ?case by simp
next
  case (2 l)
  then show ?case by simp
next
  case (3 l m ls)
  then show ?case by (simp add: split_lines_append_nl)
qed

lemma find_sub_key:
  "\<not> contains k '': '' \<Longrightarrow> find_sub (k @ '': '' @ r) '': '' = Some (length k)"
proof (induction k)
  case Nil
  then show ?case by (simp add: startswith_def)
next
  case (Cons c k)
  then have nc: "\<not> startswith (c # k) '': ''" and rec: "\<not> contains k '': ''"
    by (auto simp: contains_Cons)
  have "\<not> startswith (c # k @ '': '' @ r) '': ''"
    using nc by (cases k) (auto simp: startswith_def)
  then show ?case using Cons.IH[OF rec] by simp
qed


subsection \<open>The token of each line the dumper writes\<close>

lemma spaces_prefix: "\<forall>c \<in> set (prefix_of w L). isspace c"
  by (simp add: prefix_of_def isspace_def)

lemma length_prefix: "length (prefix_of w L) = ind w L"
  by (simp add: prefix_of_def ind_def)

lemma colon_not_space: "\<not> isspace CHR '':''" "\<not> isspace CHR ''-''"
  by (simp_all add: isspace_def)

lemma key_line_shape:
  assumes "key_ok k"
  shows "\<not> isspace (hd (k @ CHR '':'' # x))"
    and "\<not> startswith (k @ CHR '':'' # x) ''#''"
    and "\<not> startswith (k @ CHR '':'' # x) ''- ''"
proof -
  show "\<not> isspace (hd (k @ CHR '':'' # x))"
    using assms by (cases k) (auto simp: key_ok_def colon_not_space)
  show "\<not> startswith (k @ CHR '':'' # x) ''#''"
    using assms by (cases k) (auto simp: key_ok_def startswith_def)
  show "\<not> startswith (k @ CHR '':'' # x) ''- ''"
  proof (cases k)
    case Nil
    then show ?thesis by (simp add: startswith_def)
  next
    case (Cons c k')
    then show ?thesis using assms by (cases k') (auto simp: key_ok_def startswith_def)
  qed
qed

lemma scan_key_line:
  assumes "key_ok k"
  shows "scan_line pf n (prefix_of w L @ k @ '':'')
           = Inr (Some \<lparr>tok = KEY k, line = n, indent = ind w L\<rparr>)"
proof -
  let ?m = "k @ '':''"
  have m: "?m \<noteq> []" "\<not> isspace (hd ?m)" "\<not> isspace (last ?m)"
    using key_line_shape(1)[OF assms, of "[]"] by (simp_all add: colon_not_space)
  have s: "strip (prefix_of w L @ ?m @ []) = ?m"
       "length (prefix_of w L @ ?m @ []) - length (lstrip (prefix_of w L @ ?m @ [])) = ind w L"
    using strip_unique(1,3)[OF spaces_prefix _ m, of "[]" w L] by (simp_all add: length_prefix)
  have e: "endswith ?m '':''" by (simp add: endswith_single)
  show ?thesis
    using s e key_line_shape(2,3)[OF assms, of "[]"] m(1)
    by (simp add: scan_line_def Let_def)
qed

lemma text_ok_decomp:
  assumes "strip r \<noteq> []"
  obtains ra rb where "r = ra @ strip r @ rb" "\<forall>c \<in> set ra. isspace c" "\<forall>c \<in> set rb. isspace c"
    "strip (ra @ strip r) = strip r"
proof -
  from strip_decomp[of r] obtain ra rb where
    d: "r = ra @ strip r @ rb" "\<forall>c \<in> set ra. isspace c" "\<forall>c \<in> set rb. isspace c" by blast
  have "strip (ra @ strip r @ []) = strip r"
    using strip_unique(1)[OF d(2) _ assms strip_ends[OF assms], of "[]"] by simp
  then have "strip (ra @ strip r) = strip r" by simp
  with d show ?thesis using that by blast
qed

lemma scan_entry_line:
  assumes "key_ok k" and "text_ok r"
  shows "scan_line pf n (prefix_of w L @ k @ '': '' @ r)
           = Inr (Some \<lparr>tok = KEY_VALUE k (scanner_parse_value pf r), line = n, indent = ind w L\<rparr>)"
proof -
  have sr: "strip r \<noteq> []" and nc: "last (strip r) \<noteq> CHR '':''"
    using assms(2) by (auto simp: text_ok_def endswith_single)
  from text_ok_decomp[OF sr] obtain ra rb where
    d: "r = ra @ strip r @ rb" "\<forall>c \<in> set ra. isspace c" "\<forall>c \<in> set rb. isspace c"
       "strip (ra @ strip r) = strip r" by blast
  let ?v = "ra @ strip r"
  let ?m = "k @ '': '' @ ?v"
  have line: "prefix_of w L @ k @ '': '' @ r = prefix_of w L @ ?m @ rb"
    using d(1) by simp
  have m: "?m \<noteq> []" "\<not> isspace (hd ?m)" "\<not> isspace (last ?m)"
    using key_line_shape(1)[OF assms(1), of "CHR '' '' # ?v"] sr strip_ends(2)[OF sr]
    by simp_all
  have s: "strip (prefix_of w L @ ?m @ rb) = ?m"
       "length (prefix_of w L @ ?m @ rb) - length (lstrip (prefix_of w L @ ?m @ rb)) = ind w L"
    using strip_unique(1,3)[OF spaces_prefix d(3) m, of w L] by (simp_all add: length_prefix)
  have c: "contains ?m '': ''" by (auto simp: contains_iff)
  have e: "\<not> endswith ?m '':''" using sr nc by (simp add: endswith_single)
  have "\<not> contains k '': ''" using assms(1) by (simp add: key_ok_def)
  then have "find_sub ?m '': '' = Some (length k)" by (rule find_sub_key)
  then have sp: "split1 ?m '': '' = [k, ?v]" by (simp add: split1_def)
  have v: "scanner_parse_value pf ?v = scanner_parse_value pf r"
    by (rule coerce_strip_cong) (rule d(4))
  show ?thesis
    unfolding line
    using s c e sp v m(1) key_line_shape(2,3)[OF assms(1), of "CHR '' '' # ?v"]
    by (simp add: scan_line_def Let_def)
qed

lemma scan_item_line:
  assumes "strip r \<noteq> []"
  shows "\<exists>payload. scan_line pf n (prefix_of w L @ ''- '' @ r)
               = Inr (Some \<lparr>tok = LIST_ITEM payload, line = n, indent = ind w L\<rparr>)
             \<and> parser_parse_scalar pf payload = scanner_parse_value pf r"
proof -
  from text_ok_decomp[OF assms] obtain ra rb where
    d: "r = ra @ strip r @ rb" "\<forall>c \<in> set ra. isspace c" "\<forall>c \<in> set rb. isspace c"
       "strip (ra @ strip r) = strip r" by blast
  let ?v = "ra @ strip r"
  let ?m = "''- '' @ ?v"
  have line: "prefix_of w L @ ''- '' @ r = prefix_of w L @ ?m @ rb"
    using d(1) by simp
  have m: "?m \<noteq> []" "\<not> isspace (hd ?m)" "\<not> isspace (last ?m)"
    using assms strip_ends(2)[OF assms] by (simp_all add: colon_not_space)
  have s: "strip (prefix_of w L @ ?m @ rb) = ?m"
       "length (prefix_of w L @ ?m @ rb) - length (lstrip (prefix_of w L @ ?m @ rb)) = ind w L"
    using strip_unique(1,3)[OF spaces_prefix d(3) m, of w L] by (simp_all add: length_prefix)
  have v: "parser_parse_scalar pf ?v = scanner_parse_value pf r"
    unfolding parser_parse_scalar_def by (rule coerce_strip_cong) (rule d(4))
  have "scan_line pf n (prefix_of w L @ ''- '' @ r)
          = Inr (Some \<lparr>tok = LIST_ITEM ?v, line = n, indent = ind w L\<rparr>)"
    unfolding line using s by (simp add: scan_line_def Let_def startswith_def)
  with v show ?thesis by blast
qed

lemma scan_root_line:
  assumes "root_text_ok r"
  shows "\<exists>i. scan_line pf n r
           = Inr (Some \<lparr>tok = VALUE (scanner_parse_value pf r), line = n, indent = i\<rparr>)"
proof -
  have v: "scanner_parse_value pf (strip r) = scanner_parse_value pf r"
    by (rule coerce_strip_cong) (rule strip_strip)
  show ?thesis
    using assms v by (simp add: scan_line_def Let_def root_text_ok_def text_ok_def)
qed


subsection \<open>The lines and tokens of a dumped document\<close>

lemma scan_lines_tokens_of: "scan_lines pf n ls = Inr (tokens_of pf n ls)"
  using scan_lines_total[of pf n ls] by (auto simp: tokens_of_def)

lemma tokens_of_Nil: "tokens_of pf n [] = []"
  by (simp add: tokens_of_def)

lemma tokens_of_Cons_Some:
  "scan_line pf n l = Inr (Some t) \<Longrightarrow> tokens_of pf n (l # ls) = t # tokens_of pf (Suc n) ls"
proof -
  assume a: "scan_line pf n l = Inr (Some t)"
  obtain ts where "scan_lines pf (Suc n) ls = Inr ts" using scan_lines_total by blast
  then show ?thesis using a by (simp add: tokens_of_def)
qed

lemma tokens_of_Cons_None:
  "scan_line pf n l = Inr None \<Longrightarrow> tokens_of pf n (l # ls) = tokens_of pf (Suc n) ls"
proof -
  assume a: "scan_line pf n l = Inr None"
  obtain ts where "scan_lines pf (Suc n) ls = Inr ts" using scan_lines_total by blast
  then show ?thesis using a by (simp add: tokens_of_def)
qed

lemma tokens_of_append:
  "tokens_of pf n (a @ b) = tokens_of pf n a @ tokens_of pf (n + length a) b"
proof (induction a arbitrary: n)
  case Nil
  then show ?case by (simp add: tokens_of_Nil)
next
  case (Cons l a)
  obtain r where r: "scan_line pf n l = Inr r" using scan_line_total by blast
  show ?case
  proof (cases r)
    case None
    then show ?thesis using r Cons.IH[of "Suc n"]
      by (simp add: tokens_of_Cons_None)
  next
    case (Some t)
    then show ?thesis using r Cons.IH[of "Suc n"]
      by (simp add: tokens_of_Cons_Some)
  qed
qed

lemma render_scalar: "\<not> is_collection a \<Longrightarrow> dumper_dump sf w a L = render sf a"
  by (cases a) (simp_all add: render_def)

lemma newline_prefix: "newline \<notin> set (prefix_of w L)"
  by (simp add: prefix_of_def newline_def)

lemma below_parse_list: "below b rest \<Longrightarrow> parser_parse_list pf b rest acc = (acc, rest)"
  by (cases rest) (auto simp: below_def)

lemma below_parse_mapping: "below b rest \<Longrightarrow> parser_parse_mapping pf b rest acc = (acc, rest)"
  by (cases rest) (auto simp: below_def parser_parse_mapping.simps)

lemma below_mono: "b \<le> b' \<Longrightarrow> below b rest \<Longrightarrow> below b' rest"
  by (cases rest) (auto simp: below_def)

lemma ind_Suc: "0 < w \<Longrightarrow> ind w L < ind w (Suc L)"
proof -
  assume w: "0 < w"
  have "0 \<le> int L * w" using w by simp
  then have "nat (int L * w + w) = nat (int L * w) + nat w"
    using w by (simp add: nat_add_distrib)
  then show ?thesis using w by (simp add: ind_def algebra_simps)
qed

lemma parse_list_items:
  assumes "\<forall>x \<in> set xs. text_ok (render sf x)" and "below (ind w L) rest"
  shows "parser_parse_list pf (ind w L) (tokens_of pf n (item_lines sf w xs L) @ rest) acc
           = (acc @ map (\<lambda>x. scanner_parse_value pf (render sf x)) xs, rest)"
  using assms(1)
proof (induction xs arbitrary: n acc)
  case Nil
  then show ?case using assms(2) by (simp add: item_lines_def tokens_of_Nil below_parse_list)
next
  case (Cons x xs)
  have "strip (render sf x) \<noteq> []" using Cons.prems by (simp add: text_ok_def)
  from scan_item_line[OF this, of pf n w L] obtain payload where
    p: "scan_line pf n (prefix_of w L @ ''- '' @ render sf x)
          = Inr (Some \<lparr>tok = LIST_ITEM payload, line = n, indent = ind w L\<rparr>)"
       "parser_parse_scalar pf payload = scanner_parse_value pf (render sf x)" by blast
  have t: "tokens_of pf n (item_lines sf w (x # xs) L)
             = \<lparr>tok = LIST_ITEM payload, line = n, indent = ind w L\<rparr>
               # tokens_of pf (Suc n) (item_lines sf w xs L)"
    using tokens_of_Cons_Some[OF p(1)] by (simp add: item_lines_def)
  show ?case
    unfolding t using Cons.IH[of "Suc n" "acc @ [scanner_parse_value pf (render sf x)]"] Cons.prems p(2)
    by simp
qed

lemma entry_lines_Nil: "entry_lines sf w [] L = []"
  by (simp add: entry_lines_def)

lemma key_no_newline: "key_ok k \<Longrightarrow> newline \<notin> set k"
  by (simp add: key_ok_def)

lemma colon_not_newline: "CHR '':'' \<noteq> newline" "CHR '' '' \<noteq> newline" "CHR ''-'' \<noteq> newline"
  by (simp_all add: newline_def)

lemma entry_lines_scalar:
  assumes "\<not> is_collection v" and "key_ok k" and "text_ok (render sf v)"
  shows "entry_lines sf w ((k, v) # kvs) L
           = (prefix_of w L @ k @ '': '' @ render sf v) # entry_lines sf w kvs L"
proof -
  have "newline \<notin> set (prefix_of w L @ k @ '': '' @ render sf v)"
    using assms(2,3) newline_prefix[of w L]
    by (simp add: key_ok_def text_ok_def) (simp add: newline_def)
  then have "split_lines (prefix_of w L @ k @ '': '' @ render sf v)
               = [prefix_of w L @ k @ '': '' @ render sf v]"
    by (rule split_lines_no_newline)
  then show ?thesis
    using assms(1) by (simp add: entry_lines_def render_scalar)
qed

lemma entry_lines_block:
  assumes "is_collection v" and "truthy v" and "key_ok k"
  shows "entry_lines sf w ((k, v) # kvs) L
           = (prefix_of w L @ k @ '':'')
             # split_lines (dumper_dump sf w v (Suc L)) @ entry_lines sf w kvs L"
proof -
  have "newline \<notin> set (prefix_of w L @ k @ '':'')"
    using assms(3) newline_prefix[of w L] by (simp add: key_ok_def) (simp add: newline_def)
  then have "split_lines (prefix_of w L @ k @ '':'') = [prefix_of w L @ k @ '':'']"
    by (rule split_lines_no_newline)
  then show ?thesis
    using assms(1,2) by (simp add: entry_lines_def)
qed

lemma dump_mapping_lines_nonempty: "kvs \<noteq> [] \<Longrightarrow> dump_mapping_lines sf w kvs L \<noteq> []"
  by (cases kvs) (auto split: if_splits)

lemma dict_lines:
  "kvs \<noteq> [] \<Longrightarrow> split_lines (dumper_dump sf w (VDict kvs) L) = entry_lines sf w kvs L"
  by (simp add: entry_lines_def split_join_lines dump_mapping_lines_nonempty)

lemma dump_list_lines_scalars:
  "\<forall>x \<in> set xs. \<not> is_collection x \<Longrightarrow> dump_list_lines sf w xs L = item_lines sf w xs L"
  by (induction xs) (simp_all add: item_lines_def render_scalar)

lemma item_lines_split:
  "\<forall>x \<in> set xs. text_ok (render sf x) \<Longrightarrow>
     concat (map split_lines (item_lines sf w xs L)) = item_lines sf w xs L"
proof (induction xs)
  case Nil
  then show ?case by (simp add: item_lines_def)
next
  case (Cons x xs)
  have "newline \<notin> set (prefix_of w L @ ''- '' @ render sf x)"
    using Cons.prems newline_prefix[of w L] by (simp add: text_ok_def) (simp add: newline_def)
  then have "split_lines (prefix_of w L @ ''- '' @ render sf x)
               = [prefix_of w L @ ''- '' @ render sf x]"
    by (rule split_lines_no_newline)
  then show ?case using Cons by (simp add: item_lines_def)
qed

lemma list_lines:
  assumes "xs \<noteq> []" and "\<forall>x \<in> set xs. \<not> is_collection x \<and> text_ok (render sf x)"
  shows "split_lines (dumper_dump sf w (VList xs) L) = item_lines sf w xs L"
proof -
  have "dump_list_lines sf w xs L = item_lines sf w xs L"
    using assms(2) by (intro dump_list_lines_scalars) blast
  moreover have "item_lines sf w xs L \<noteq> []" using assms(1) by (simp add: item_lines_def)
  moreover have "concat (map split_lines (item_lines sf w xs L)) = item_lines sf w xs L"
    using assms(2) by (intro item_lines_split) blast
  ultimately show ?thesis using assms(1) by (simp add: split_join_lines)
qed

lemma wf_block_collection: "wf_block leaf v \<Longrightarrow> is_collection v \<and> truthy v"
  by (cases v) auto

lemma first_item_token:
  assumes "xs \<noteq> []" and "\<forall>x \<in> set xs. text_ok (render sf x)"
  shows "\<exists>t ts. tokens_of pf n (item_lines sf w xs L) = t # ts
           \<and> is_list_item (tok t) \<and> indent t = ind w L"
proof -
  obtain x xs' where xs: "xs = x # xs'" using assms(1) by (cases xs) auto
  have "strip (render sf x) \<noteq> []" using assms(2) xs by (simp add: text_ok_def)
  from scan_item_line[OF this, of pf n w L] obtain payload where
    "scan_line pf n (prefix_of w L @ ''- '' @ render sf x)
          = Inr (Some \<lparr>tok = LIST_ITEM payload, line = n, indent = ind w L\<rparr>)" by blast
  from tokens_of_Cons_Some[OF this] show ?thesis
    unfolding xs by (simp add: item_lines_def)
qed

lemma first_entry_token:
  assumes "wf_entries leaf ((k, v) # kvs)" and "\<And>a. leaf a \<Longrightarrow> text_ok (render sf a)"
  shows "\<exists>t ts. tokens_of pf n (entry_lines sf w ((k, v) # kvs) L) = t # ts
           \<and> is_key (tok t) \<and> indent t = ind w L"
proof (cases "is_collection v")
  case True
  then have "truthy v" "key_ok k" using assms(1) wf_block_collection[of leaf v] by auto
  from entry_lines_block[OF True this, of sf w kvs L]
       tokens_of_Cons_Some[OF scan_key_line[OF \<open>key_ok k\<close>, of pf n w L]]
  show ?thesis by simp
next
  case False
  then have k: "key_ok k" and r: "text_ok (render sf v)" using assms by auto
  from entry_lines_scalar[OF False k r, of w kvs L]
       tokens_of_Cons_Some[OF scan_entry_line[OF k r, of pf n w L]]
  show ?thesis by simp
qed

lemma first_block_token:
  assumes "wf_block leaf v" and "\<And>a. leaf a \<Longrightarrow> text_ok (render sf a)"
  shows "\<exists>t ts. tokens_of pf n (split_lines (dumper_dump sf w v L)) = t # ts
           \<and> indent t = ind w L"
proof (cases v)
  case (VList xs)
  then have "xs \<noteq> []" "\<forall>x \<in> set xs. \<not> is_collection x \<and> text_ok (render sf x)"
    using assms by auto
  then show ?thesis
    using first_item_token[of xs sf pf n w L] list_lines[of xs sf w L] VList by auto
next
  case (VDict kvs)
  then obtain k v' kvs' where kvs: "kvs = (k, v') # kvs'" "wf_entries leaf ((k, v') # kvs')"
    using assms(1) by (cases kvs) auto
  from first_entry_token[OF kvs(2) assms(2), of pf n w L] show ?thesis
    using VDict kvs(1) dict_lines[of kvs sf w L] by auto
qed (use assms in auto)

lemma foldl_dict_set_fresh:
  "distinct (map fst (acc @ es)) \<Longrightarrow>
     foldl (\<lambda>a (k, v). dict_set a k v) acc es = acc @ es"
proof (induction es arbitrary: acc)
  case Nil
  then show ?case by simp
next
  case (Cons e es)
  obtain k v where e: "e = (k, v)" by (cases e)
  have "k \<notin> fst ` set acc" using Cons.prems e by auto
  then have "dict_set acc k v = acc @ [(k, v)]" by (induction acc) auto
  then show ?case using Cons.IH[of "acc @ [(k, v)]"] Cons.prems e by simp
qed

lemma norm_entries_keys: "map fst (norm_entries pf sf kvs) = map fst kvs"
  by (induction kvs) auto


subsection \<open>Parsing the tokens of a dumped block\<close>

lemma parse_value_list:
  "is_list_item (tok t) \<Longrightarrow>
     parser_parse_value pf b (t # ts) = (VList (fst (parser_parse_list pf b (t # ts) [])),
                                         snd (parser_parse_list pf b (t # ts) []))"
  by (cases "tok t") (auto simp: parser_parse_value.simps split: prod.splits simp del: parser_parse_list.simps)

lemma parse_value_mapping:
  "is_key (tok t) \<Longrightarrow>
     parser_parse_value pf b (t # ts) = (VDict (fst (parser_parse_mapping pf b (t # ts) [])),
                                         snd (parser_parse_mapping pf b (t # ts) []))"
  by (cases "tok t") (auto simp: parser_parse_value.simps split: prod.splits)

lemma mapping_step_key_value:
  "parser_parse_mapping pf b (\<lparr>tok = KEY_VALUE k x, line = n, indent = b\<rparr> # ts) acc
     = parser_parse_mapping pf b ts (dict_set acc k x)"
  by (simp add: parser_parse_mapping.simps)

lemma mapping_step_key_child:
  assumes "b < indent c" and "parser_parse_value pf (indent c) (c # cs) = (x, ts')"
  shows "parser_parse_mapping pf b (\<lparr>tok = KEY k, line = n, indent = b\<rparr> # c # cs) acc
     = parser_parse_mapping pf b ts' (dict_set acc k x)"
  using assms by (simp add: parser_parse_mapping.simps)

lemma entry_step_scalar:
  assumes "\<not> is_collection v" and "key_ok k" and "text_ok (render sf v)"
  shows "parser_parse_mapping pf (ind w L)
           (tokens_of pf n (entry_lines sf w ((k, v) # kvs) L) @ rest) acc
         = parser_parse_mapping pf (ind w L)
             (tokens_of pf (Suc n) (entry_lines sf w kvs L) @ rest)
             (dict_set acc k (scanner_parse_value pf (render sf v)))"
proof -
  have "tokens_of pf n (entry_lines sf w ((k, v) # kvs) L)
          = \<lparr>tok = KEY_VALUE k (scanner_parse_value pf (render sf v)), line = n, indent = ind w L\<rparr>
            # tokens_of pf (Suc n) (entry_lines sf w kvs L)"
    unfolding entry_lines_scalar[OF assms, of w kvs L]
    by (rule tokens_of_Cons_Some[OF scan_entry_line[OF assms(2,3)]])
  then show ?thesis by (simp only: append_Cons mapping_step_key_value)
qed

lemma entry_step_block:
  assumes "is_collection v" and "truthy v" and "key_ok k"
      and "tokens_of pf (Suc n) (split_lines (dumper_dump sf w v (Suc L))) = c # cs"
      and "ind w L < indent c"
      and "parser_parse_value pf (indent c)
             (tokens_of pf (Suc n) (split_lines (dumper_dump sf w v (Suc L))) @
              tokens_of pf (Suc n + length (split_lines (dumper_dump sf w v (Suc L))))
                (entry_lines sf w kvs L) @ rest)
           = (x, tokens_of pf (Suc n + length (split_lines (dumper_dump sf w v (Suc L))))
                (entry_lines sf w kvs L) @ rest)"
  shows "parser_parse_mapping pf (ind w L)
           (tokens_of pf n (entry_lines sf w ((k, v) # kvs) L) @ rest) acc
         = parser_parse_mapping pf (ind w L)
             (tokens_of pf (Suc n + length (split_lines (dumper_dump sf w v (Suc L))))
                (entry_lines sf w kvs L) @ rest)
             (dict_set acc k x)"
proof -
  let ?child = "split_lines (dumper_dump sf w v (Suc L))"
  let ?sib = "tokens_of pf (Suc n + length ?child) (entry_lines sf w kvs L) @ rest"
  have "tokens_of pf n (entry_lines sf w ((k, v) # kvs) L)
          = \<lparr>tok = KEY k, line = n, indent = ind w L\<rparr>
            # tokens_of pf (Suc n) (?child @ entry_lines sf w kvs L)"
    unfolding entry_lines_block[OF assms(1,2,3), of sf w kvs L]
    by (rule tokens_of_Cons_Some[OF scan_key_line[OF assms(3)]])
  then have toks: "tokens_of pf n (entry_lines sf w ((k, v) # kvs) L) @ rest
          = \<lparr>tok = KEY k, line = n, indent = ind w L\<rparr> # c # (cs @ ?sib)"
    by (simp only: tokens_of_append assms(4) append_Cons append_assoc)
  have "parser_parse_value pf (indent c) (c # (cs @ ?sib)) = (x, ?sib)"
    using assms(6) by (simp only: assms(4) append_Cons)
  from mapping_step_key_child[OF assms(5) this] show ?thesis
    by (simp only: toks)
qed

lemma norm_scalar: "\<not> is_collection v \<Longrightarrow> norm pf sf v = scanner_parse_value pf (render sf v)"
  by (cases v) auto

lemma parse_block:
  fixes leaf :: "'f val \<Rightarrow> bool"
  assumes w: "0 < w"
  shows "(\<forall>a. leaf a \<longrightarrow> text_ok (render sf a)) \<Longrightarrow> wf_block leaf v \<Longrightarrow> below (ind w L) rest \<Longrightarrow>
           parser_parse_value pf (ind w L) (tokens_of pf n (split_lines (dumper_dump sf w v L)) @ rest)
             = (norm pf sf v, rest)"
    and "(\<forall>a. leaf a \<longrightarrow> text_ok (render sf a)) \<Longrightarrow> wf_entries leaf kvs \<Longrightarrow> below (ind w (Suc L)) rest \<Longrightarrow>
           parser_parse_mapping pf (ind w L) (tokens_of pf n (entry_lines sf w kvs L) @ rest) acc
             = parser_parse_mapping pf (ind w L) rest
                 (foldl (\<lambda>a (k, v). dict_set a k v) acc (norm_entries pf sf kvs))"
proof (induction leaf v and leaf kvs arbitrary: L n rest and L n rest acc
         rule: wf_block_wf_entries.induct)
  case (1 leaf xs)
  from "1.prems"(1,2) have xs: "xs \<noteq> []" "\<forall>x \<in> set xs. \<not> is_collection x \<and> text_ok (render sf x)"
    by auto
  then have tx: "\<forall>x \<in> set xs. text_ok (render sf x)" by blast
  have lines: "split_lines (dumper_dump sf w (VList xs) L) = item_lines sf w xs L"
    using xs by (rule list_lines)
  obtain t ts where t: "tokens_of pf n (item_lines sf w xs L) = t # ts" "is_list_item (tok t)"
    using first_item_token[OF xs(1) tx, of pf n w L] by blast
  have pl: "parser_parse_list pf (ind w L) (tokens_of pf n (item_lines sf w xs L) @ rest) []
          = ([] @ map (\<lambda>x. scanner_parse_value pf (render sf x)) xs, rest)"
    using tx "1.prems"(3) by (rule parse_list_items)
  have "parser_parse_value pf (ind w L) (t # (ts @ rest))
          = (VList (map (\<lambda>x. scanner_parse_value pf (render sf x)) xs), rest)"
    using pl unfolding t(1) parse_value_list[OF t(2)] by simp
  then show ?case
    unfolding lines t(1) by simp
next
  case (2 leaf kvs)
  have kvs: "kvs \<noteq> []" "distinct (map fst kvs)" "wf_entries leaf kvs"
    using "2.prems"(2) by auto
  have lines: "split_lines (dumper_dump sf w (VDict kvs) L) = entry_lines sf w kvs L"
    using kvs(1) by (rule dict_lines)
  obtain k v kvs' where c: "kvs = (k, v) # kvs'" using kvs(1) by (cases kvs) auto
  obtain t ts where t: "tokens_of pf n (entry_lines sf w kvs L) = t # ts" "is_key (tok t)"
    using first_entry_token[of leaf k v kvs' sf pf n w L] kvs(3) "2.prems"(1) c by blast
  have b': "below (ind w (Suc L)) rest"
    using "2.prems"(3) ind_Suc[OF w, of L] below_mono[of "ind w L" "ind w (Suc L)" rest] by simp
  have fd: "foldl (\<lambda>a (k, v). dict_set a k v) [] (norm_entries pf sf kvs) = norm_entries pf sf kvs"
    using foldl_dict_set_fresh[of "[]" "norm_entries pf sf kvs"] kvs(2)
    by (simp add: norm_entries_keys)
  have "parser_parse_mapping pf (ind w L) (tokens_of pf n (entry_lines sf w kvs L) @ rest) []
          = parser_parse_mapping pf (ind w L) rest (norm_entries pf sf kvs)"
    using "2.IH"[OF "2.prems"(1) kvs(3) b', of n "[]"] unfolding fd .
  also have "\<dots> = (norm_entries pf sf kvs, rest)"
    using "2.prems"(3) by (rule below_parse_mapping)
  finally have pm: "parser_parse_mapping pf (ind w L) (t # (ts @ rest)) []
                      = (norm_entries pf sf kvs, rest)"
    unfolding t(1) by simp
  show ?case
    unfolding lines t(1) using parse_value_mapping[OF t(2), of pf "ind w L" "ts @ rest"] pm
    by simp
next
  case (4 leaf)
  then show ?case by (simp add: entry_lines_Nil tokens_of_Nil)
next
  case (5 leaf k v kvs)
  have k: "key_ok k" and rest_wf: "wf_entries leaf kvs"
    using "5.prems"(2) by auto
  have IHk: "parser_parse_mapping pf (ind w L) (tokens_of pf m (entry_lines sf w kvs L) @ rest) acc'
               = parser_parse_mapping pf (ind w L) rest
                   (foldl (\<lambda>a (k, v). dict_set a k v) acc' (norm_entries pf sf kvs))" for m acc'
    using "5.IH"(2)[OF "5.prems"(1) rest_wf "5.prems"(3)] .
  show ?case
  proof (cases "is_collection v")
    case False
    then have r: "text_ok (render sf v)" using "5.prems"(1,2) by auto
    show ?thesis
      unfolding entry_step_scalar[OF False k r] IHk
      by (simp add: norm_scalar[OF False])
  next
    case True
    then have wfv: "wf_block leaf v" using "5.prems"(2) by auto
    then have tr: "truthy v" using wf_block_collection by blast
    let ?child = "split_lines (dumper_dump sf w v (Suc L))"
    let ?m = "Suc n + length ?child"
    let ?sib = "tokens_of pf ?m (entry_lines sf w kvs L) @ rest"
    obtain c cs where c: "tokens_of pf (Suc n) ?child = c # cs" "indent c = ind w (Suc L)"
      using first_block_token[of leaf v sf pf "Suc n" w "Suc L"] wfv "5.prems"(1) by blast
    have bsib: "below (ind w (Suc L)) ?sib"
    proof (cases kvs)
      case Nil
      then show ?thesis using "5.prems"(3) by (simp add: entry_lines_Nil tokens_of_Nil)
    next
      case (Cons e kvs')
      obtain k' v' where e: "e = (k', v')" by (cases e)
      obtain s ss where "tokens_of pf ?m (entry_lines sf w kvs L) = s # ss" "indent s = ind w L"
        using first_entry_token[of leaf k' v' kvs' sf pf ?m w L] rest_wf "5.prems"(1) Cons e by blast
      then show ?thesis using ind_Suc[OF w, of L] by (simp add: below_def)
    qed
    have child: "parser_parse_value pf (indent c) (tokens_of pf (Suc n) ?child @ ?sib)
                   = (norm pf sf v, ?sib)"
      unfolding c(2) using "5.IH"(1)[OF True "5.prems"(1) wfv bsib] .
    have lt: "ind w L < indent c" unfolding c(2) by (rule ind_Suc[OF w])
    show ?thesis
      unfolding entry_step_block[OF True tr k c(1) lt child] IHk by simp
  qed
qed simp_all


subsection \<open>Load after dump\<close>

lemma load_dump_norm:
  assumes w: "0 < w"
      and leaf: "\<forall>a. leaf a \<longrightarrow> text_ok (render sf a)"
      and root: "\<forall>a. root_leaf a \<longrightarrow> root_text_ok (render sf a)"
      and wf: "wf_doc leaf root_leaf v"
  shows "load pf (dump sf v w) = Inr (norm pf sf v)"
proof (cases "is_collection v")
  case True
  then have wfv: "wf_block leaf v" using wf by (simp add: wf_doc_def)
  let ?toks = "tokens_of pf 1 (split_lines (dumper_dump sf w v 0))"
  obtain t ts where t: "?toks = t # ts"
    using first_block_token[of leaf v sf pf 1 w 0] wfv leaf by blast
  have "parser_parse_value pf (ind w 0) (?toks @ []) = (norm pf sf v, [])"
    using parse_block(1)[OF w leaf wfv, of 0 "[]" pf 1] by (simp add: below_def)
  then have "parser_parse pf ?toks = norm pf sf v"
    using t by (simp add: parser_parse_def ind_def)
  then show ?thesis
    by (simp add: load_def dump_def scanner_scan_def scan_lines_tokens_of)
next
  case False
  then have r: "root_text_ok (render sf v)" using wf root by (simp add: wf_doc_def)
  have d: "dumper_dump sf w v 0 = render sf v" using False by (rule render_scalar)
  have "newline \<notin> set (render sf v)" using r by (simp add: root_text_ok_def text_ok_def)
  then have l: "split_lines (render sf v) = [render sf v]" by (rule split_lines_no_newline)
  obtain i where "scan_line pf 1 (render sf v)
      = Inr (Some \<lparr>tok = VALUE (scanner_parse_value pf (render sf v)), line = 1, indent = i\<rparr>)"
    using scan_root_line[OF r, of pf 1] by blast
  then have "scanner_scan pf (render sf v)
      = Inr [\<lparr>tok = VALUE (scanner_parse_value pf (render sf v)), line = 1, indent = i\<rparr>]"
    by (simp add: scanner_scan_def l)
  then show ?thesis
    using False
    by (simp add: load_def dump_def d parser_parse_def parser_parse_value.simps norm_scalar)
qed

lemma coerce_scalar: "\<not> is_collection (scanner_parse_value pf s)"
  by (simp add: scanner_parse_value_def Let_def split: option.splits)

lemma norm_entries_Nil_iff: "norm_entries pf sf kvs = [] \<longleftrightarrow> kvs = []"
  by (cases kvs) auto

lemma norm_collection:
  "is_collection v \<Longrightarrow> is_collection (norm pf sf v) \<and> truthy (norm pf sf v) = truthy v"
  by (cases v) (simp_all add: norm_entries_Nil_iff)

lemma norm_stable:
  "(\<forall>a. leaf a \<longrightarrow> scanner_parse_value pf (render sf a) = a) \<Longrightarrow> wf_block leaf v \<Longrightarrow>
     norm pf sf v = v"
  "(\<forall>a. leaf a \<longrightarrow> scanner_parse_value pf (render sf a) = a) \<Longrightarrow> wf_entries leaf kvs \<Longrightarrow>
     norm_entries pf sf kvs = kvs"
proof (induction leaf v and leaf kvs rule: wf_block_wf_entries.induct)
  case (1 leaf xs)
  then have "\<forall>x \<in> set xs. scanner_parse_value pf (render sf x) = x" by auto
  then have "map (\<lambda>x. scanner_parse_value pf (render sf x)) xs = xs"
    by (induction xs) auto
  then show ?case by simp
next
  case (2 leaf kvs)
  then show ?case by simp
next
  case (4 leaf)
  then show ?case by simp
next
  case (5 leaf k v kvs)
  have rest: "norm_entries pf sf kvs = kvs" using "5.IH"(2) "5.prems" by simp
  show ?case
  proof (cases "is_collection v")
    case True
    then show ?thesis using "5.IH"(1) "5.prems" rest by simp
  next
    case False
    then have "norm pf sf v = v"
      using "5.prems" by (simp add: norm_scalar)
    then show ?thesis using rest by simp
  qed
qed simp_all

lemma dump_norm_settled:
  "(\<forall>a. leaf a \<longrightarrow> render sf (scanner_parse_value pf (render sf a)) = render sf a) \<Longrightarrow>
     wf_block leaf v \<Longrightarrow> dumper_dump sf w (norm pf sf v) L = dumper_dump sf w v L"
  "(\<forall>a. leaf a \<longrightarrow> render sf (scanner_parse_value pf (render sf a)) = render sf a) \<Longrightarrow>
     wf_entries leaf kvs \<Longrightarrow>
     dump_mapping_lines sf w (norm_entries pf sf kvs) L = dump_mapping_lines sf w kvs L"
proof (induction leaf v and leaf kvs arbitrary: L and L rule: wf_block_wf_entries.induct)
  case (1 leaf xs)
  then have xs: "\<forall>x \<in> set xs. \<not> is_collection x
                   \<and> render sf (scanner_parse_value pf (render sf x)) = render sf x"
    by auto
  then have "dump_list_lines sf w (map (\<lambda>x. scanner_parse_value pf (render sf x)) xs) L
               = dump_list_lines sf w xs L"
    by (induction xs) (simp_all add: coerce_scalar render_scalar)
  then show ?case using "1.prems" by simp
next
  case (2 leaf kvs)
  have "norm_entries pf sf kvs \<noteq> []" using "2.prems"(2) by (simp add: norm_entries_Nil_iff)
  then show ?case using "2.IH"[OF "2.prems"(1), of L] "2.prems"(2) by simp
next
  case (4 leaf)
  then show ?case by simp
next
  case (5 leaf k v kvs)
  have rest: "dump_mapping_lines sf w (norm_entries pf sf kvs) L = dump_mapping_lines sf w kvs L"
    using "5.IH"(2)[OF "5.prems"(1)] "5.prems"(2) by simp
  show ?case
  proof (cases "is_collection v")
    case True
    then have wfv: "wf_block leaf v" using "5.prems"(2) by simp
    then have tv: "truthy v" using wf_block_collection by blast
    have n: "is_collection (norm pf sf v)" "truthy (norm pf sf v)"
      using norm_collection[OF True, of pf sf] tv by simp_all
    show ?thesis
      using "5.IH"(1)[OF True "5.prems"(1) wfv, of "L + 1"] True tv n rest by simp
  next
    case False
    then have s: "render sf (scanner_parse_value pf (render sf v)) = render sf v"
      using "5.prems" by simp
    have "\<not> is_collection (norm pf sf v)"
      using False by (simp add: norm_scalar coerce_scalar)
    then show ?thesis
      using False rest s by (simp add: norm_scalar render_scalar)
  qed
qed simp_all


subsection \<open>Which scalars are stable\<close>

text \<open>
  Null, the Booleans and the Integers are stable, and so is a String with a must-quote
  character and no newline.  A String without must-quote character is stable exactly
  when it has no newline, is not empty, has no whitespace at either end, is not a
  boolean or null word in any letter case, and is read neither by \<^verbatim>\<open>int\<close> nor by
  \<^verbatim>\<open>float\<close>.
\<close>

lemma strip_id: "s \<noteq> [] \<Longrightarrow> \<not> isspace (hd s) \<Longrightarrow> \<not> isspace (last s) \<Longrightarrow> strip s = s"
  using strip_unique(1)[of "[]" "[]" s] by simp

lemma digit_or_minus:
  assumes "isdigit c \<or> c = CHR ''-''"
  shows "\<not> isspace c" and "lower_char c = c" and "c \<noteq> dquote" and "c \<noteq> squote"
    and "c \<notin> set ''tyofn~''" and "c \<noteq> CHR '':''" and "c \<noteq> newline" and "c \<noteq> CHR ''#''"
    and "c \<noteq> CHR '' ''"
  using assms
  by (auto simp: isdigit_def isspace_def lower_char_def dquote_def squote_def newline_def)

lemma coerce_str_int: "scanner_parse_value pf (str_int i) = VInt i"
proof -
  let ?s = "str_int i"
  have ne: "?s \<noteq> []" and ch: "\<forall>c \<in> set ?s. isdigit c \<or> c = CHR ''-''"
    using str_int_chars by auto
  have h: "isdigit (hd ?s) \<or> hd ?s = CHR ''-''" and l: "isdigit (last ?s) \<or> last ?s = CHR ''-''"
    using ne ch by auto
  have st: "strip ?s = ?s"
    using strip_id[OF ne] digit_or_minus(1)[OF h] digit_or_minus(1)[OF l] by simp
  have lo: "lower ?s = ?s"
    unfolding lower_def using ch digit_or_minus(2) by (intro map_idI) auto
  have w: "?s \<notin> set [''true'', ''yes'', ''on'', ''false'', ''no'', ''off'', ''null'', ''~'']"
    using digit_or_minus(5)[OF h] by (cases ?s) auto
  have q: "\<not> startswith ?s [dquote]" "\<not> startswith ?s [squote]"
    using digit_or_minus(3,4)[OF h] ne by (cases ?s; simp add: startswith_def)+
  show ?thesis
    using ne st lo w q by (simp add: scanner_parse_value_def Let_def py_int_str_int)
qed

lemma text_ok_str_int: "root_text_ok (str_int i)"
proof -
  let ?s = "str_int i"
  have ne: "?s \<noteq> []" and ch: "\<forall>c \<in> set ?s. isdigit c \<or> c = CHR ''-''"
    using str_int_chars by auto
  have h: "isdigit (hd ?s) \<or> hd ?s = CHR ''-''" and l: "isdigit (last ?s) \<or> last ?s = CHR ''-''"
    using ne ch by auto
  have st: "strip ?s = ?s"
    using strip_id[OF ne] digit_or_minus(1)[OF h] digit_or_minus(1)[OF l] by simp
  have nl: "newline \<notin> set ?s" using ch digit_or_minus(7) by blast
  have nc: "CHR '':'' \<notin> set ?s" using ch digit_or_minus(6) by blast
  have nsp: "CHR '' '' \<notin> set ?s" using ch digit_or_minus(9) by blast
  have "last ?s \<in> set ?s" using ne by simp
  then have e: "\<not> endswith ?s '':''" using nc by (auto simp: endswith_single)
  have c: "\<not> contains ?s '': ''" using nc by (auto simp: contains_iff)
  have hs: "\<not> startswith ?s ''#''"
    using digit_or_minus(8)[OF h] ne by (cases ?s) (auto simp: startswith_def)
  have li: "\<not> startswith ?s ''- ''" using nsp by (auto simp: startswith_iff)
  show ?thesis using ne st nl e c hs li by (simp add: root_text_ok_def text_ok_def)
qed

lemma stable_simple_scalars:
  "stable_root pf sf VNull" "stable_root pf sf (VBool b)" "stable_root pf sf (VInt i)"
  "stable_leaf pf sf VNull" "stable_leaf pf sf (VBool b)" "stable_leaf pf sf (VInt i)"
proof -
  show n: "stable_root pf sf VNull"
    by (simp add: stable_root_def render_def root_text_ok_def text_ok_def str_eval coerce_eval)
  show b: "stable_root pf sf (VBool b)"
    by (cases b)
       (simp_all add: stable_root_def render_def root_text_ok_def text_ok_def str_eval coerce_eval)
  show i: "stable_root pf sf (VInt i)"
    using text_ok_str_int[of i] coerce_str_int[of pf i] by (simp add: stable_root_def render_def)
  show "stable_leaf pf sf VNull" "stable_leaf pf sf (VBool b)" "stable_leaf pf sf (VInt i)"
    using n b i by (simp_all add: stable_root_def stable_leaf_def root_text_ok_def)
qed

lemma set_strip: "set (strip s) \<subseteq> set s"
proof -
  from strip_decomp[of s] obtain a b where "s = a @ strip s @ b" by blast
  then have "set s = set a \<union> set (strip s) \<union> set b" by (metis set_append Un_assoc)
  then show ?thesis by blast
qed

lemma stable_leaf_quoted:
  assumes "newline \<notin> set s" and "\<exists>c \<in> set special_chars. c \<in> set s"
  shows "stable_leaf pf sf (VStr s)"
proof -
  let ?r = "dquote # s @ [dquote]"
  have r: "render sf (VStr s) = ?r" using assms(2) by (simp add: render_def)
  have q: "\<not> isspace dquote" "dquote \<noteq> newline" "dquote \<noteq> CHR '':''" "lower_char dquote = dquote"
    by (simp_all add: dquote_def isspace_def newline_def lower_char_def)
  have st: "strip ?r = ?r" using strip_id[of ?r] q(1) by simp
  have t: "text_ok ?r"
    using assms(1) q(2,3) st by (simp add: text_ok_def endswith_single)
  have "hd (lower ?r) = dquote" using q(4) by (simp add: lower_def)
  then have w: "lower ?r \<notin> set [''true'', ''yes'', ''on'']"
               "lower ?r \<notin> set [''false'', ''no'', ''off'']"
               "lower ?r \<notin> set [''null'', ''~'']"
    by (auto simp: dquote_def)
  have sl: "slice_1_m1 ?r = s" by (simp add: slice_1_m1_def)
  have "scanner_parse_value pf ?r = VStr s"
    unfolding scanner_parse_value_def Let_def st using w sl
    by (simp add: startswith_def endswith_single)
  then show ?thesis using t r by (simp add: stable_leaf_def)
qed

lemma stable_leaf_plain:
  assumes "\<forall>c \<in> set special_chars. c \<notin> set s"
  shows "stable_leaf pf sf (VStr s) \<longleftrightarrow>
           newline \<notin> set s \<and> s \<noteq> [] \<and> strip s = s
           \<and> lower s \<notin> set [''true'', ''yes'', ''on'', ''false'', ''no'', ''off'', ''null'', ''~'']
           \<and> py_int s = None \<and> pf s = None"
proof -
  have r: "render sf (VStr s) = s" using assms by (auto simp: render_def)
  have sp: "dquote \<notin> set s" "squote \<notin> set s" "CHR '':'' \<notin> set s"
    using assms by (auto simp: special_chars_def)
  have nq: "\<not> startswith x [dquote]" "\<not> startswith x [squote]" if "set x \<subseteq> set s" for x
    using that sp by (cases x; auto simp: startswith_def)+
  have ne: "\<not> endswith x '':''" if "set x \<subseteq> set s" for x
  proof
    assume "endswith x '':''"
    then have "x \<noteq> []" "last x = CHR '':''" by (auto simp: endswith_single)
    then have "CHR '':'' \<in> set x" using last_in_set by metis
    then show False using that sp by blast
  qed
  show ?thesis
  proof
    assume "stable_leaf pf sf (VStr s)"
    then have t: "text_ok s" and c: "scanner_parse_value pf s = VStr s"
      by (simp_all add: stable_leaf_def r)
    have s1: "strip s \<noteq> []" and nl: "newline \<notin> set s" using t by (simp_all add: text_ok_def)
    have c': "scanner_parse_value pf s =
          (if lower (strip s) \<in> set [''true'', ''yes'', ''on''] then VBool True
           else if lower (strip s) \<in> set [''false'', ''no'', ''off''] then VBool False
           else if lower (strip s) \<in> set [''null'', ''~''] then VNull
           else (case py_int (strip s) of Some i \<Rightarrow> VInt i
                 | None \<Rightarrow> (case pf (strip s) of Some x \<Rightarrow> VFloat x | None \<Rightarrow> VStr (strip s))))"
      using s1 nq[OF set_strip]
      by (simp add: scanner_parse_value_def Let_def)
    have "lower (strip s) \<notin> set [''true'', ''yes'', ''on'', ''false'', ''no'', ''off'', ''null'', ''~'']
          \<and> py_int (strip s) = None \<and> pf (strip s) = None \<and> strip s = s"
      using c unfolding c' by (auto split: if_splits option.splits)
    then show "newline \<notin> set s \<and> s \<noteq> [] \<and> strip s = s
           \<and> lower s \<notin> set [''true'', ''yes'', ''on'', ''false'', ''no'', ''off'', ''null'', ''~'']
           \<and> py_int s = None \<and> pf s = None"
      using nl s1 by auto
  next
    assume a: "newline \<notin> set s \<and> s \<noteq> [] \<and> strip s = s
           \<and> lower s \<notin> set [''true'', ''yes'', ''on'', ''false'', ''no'', ''off'', ''null'', ''~'']
           \<and> py_int s = None \<and> pf s = None"
    then have t: "text_ok s" using ne[of s] by (simp add: text_ok_def)
    have "scanner_parse_value pf s = VStr s"
      using a nq[of s] by (simp add: scanner_parse_value_def Let_def)
    then show "stable_leaf pf sf (VStr s)" using t by (simp add: stable_leaf_def r)
  qed
qed

lemma wf_block_mono:
  "(\<forall>a. leaf a \<longrightarrow> leaf' a) \<Longrightarrow> wf_block leaf v \<Longrightarrow> wf_block leaf' v"
  "(\<forall>a. leaf a \<longrightarrow> leaf' a) \<Longrightarrow> wf_entries leaf kvs \<Longrightarrow> wf_entries leaf' kvs"
proof (induction leaf v and leaf kvs rule: wf_block_wf_entries.induct)
  case (1 leaf xs)
  then show ?case by auto
next
  case (2 leaf kvs)
  then show ?case by simp
next
  case (4 leaf)
  then show ?case by simp
next
  case (5 leaf k v kvs)
  have "wf_entries leaf' kvs" using "5.IH"(2) "5.prems" by simp
  moreover have "wf_block leaf' v" if "is_collection v"
    using "5.IH"(1)[OF that "5.prems"(1)] "5.prems"(2) that by simp
  moreover have "leaf' v" if "\<not> is_collection v"
    using "5.prems" that by simp
  ultimately show ?case using "5.prems"(2) by simp
qed simp_all

text \<open>A document that round-trips is settled: the hypothesis of C2 is the weaker one.\<close>

lemma roundtrips_settles: "roundtrips pf sf v \<Longrightarrow> settles pf sf v"
proof -
  assume r: "roundtrips pf sf v"
  have l: "\<forall>a. stable_leaf pf sf a \<longrightarrow> settled_leaf pf sf a"
    by (simp add: stable_leaf_def settled_leaf_def)
  show ?thesis
  proof (cases "is_collection v")
    case True
    then show ?thesis
      using r wf_block_mono(1)[OF l, of v] by (simp add: roundtrips_def settles_def wf_doc_def)
  next
    case False
    then show ?thesis
      using r by (simp add: roundtrips_def settles_def wf_doc_def stable_root_def settled_root_def)
  qed
qed

text \<open>
  Claim C1, as amended.  Let the indent width be positive and let \<open>v\<close> be a scalar,
  or a non-empty sequence of scalars, or a non-empty mapping whose keys have no
  newline, no leading whitespace, no leading \<^verbatim>\<open>#\<close> or \<^verbatim>\<open>"- "\<close> and no \<^verbatim>\<open>": "\<close>, and whose
  values are scalars or again such sequences and mappings.  Let the text of each scalar
  have no newline, not end with a colon and coerce back to that scalar (and, for a
  scalar that is the whole document, not look like a comment, a list item or a key
  line).  Then loading the dump of \<open>v\<close> gives \<open>v\<close>: same scalars, same key order, same
  sequence order.
\<close>

theorem load_dump_roundtrip:
  assumes "0 < w" and "roundtrips pf sf v"
  shows "load pf (dump sf v w) = Inr v"
proof -
  have wf: "wf_doc (stable_leaf pf sf) (stable_root pf sf) v"
    using assms(2) by (simp add: roundtrips_def)
  have "load pf (dump sf v w) = Inr (norm pf sf v)"
    by (rule load_dump_norm[OF assms(1) _ _ wf]) (simp_all add: stable_leaf_def stable_root_def)
  moreover have "norm pf sf v = v"
  proof (cases "is_collection v")
    case True
    then have "wf_block (stable_leaf pf sf) v" using wf by (simp add: wf_doc_def)
    then show ?thesis by (intro norm_stable(1)) (simp_all add: stable_leaf_def)
  next
    case False
    then show ?thesis using wf by (simp add: wf_doc_def norm_scalar stable_root_def)
  qed
  ultimately show ?thesis by simp
qed

lemmas wf_eval = roundtrips_def settles_def wf_doc_def stable_leaf_def stable_root_def
  settled_leaf_def settled_root_def text_ok_def root_text_ok_def key_ok_def render_def
  special_chars_def float_table_def float_str_def str_int_def str_nat.simps digit_char_def

lemma two_spaces: "replicate 2 CHR '' '' = ''  ''"
  by (simp add: numeral_2_eq_2)

theorem load_dump_roundtrip_witness:
  "(0::int) < 2 \<and> roundtrips float_table float_str example_doc
   \<and> dump float_str example_doc 2
       = ''name: BlackRoad\<newline>version: 1.0\<newline>features:\<newline>  - auth\<newline>  - api\<newline>  - database\<newline>config:\<newline>  debug: true\<newline>  port: 8080\<newline>  host: localhost''
   \<and> load float_table (dump float_str example_doc 2) = Inr example_doc"
proof -
  have r: "roundtrips float_table float_str example_doc"
    by (simp add: example_doc_def wf_eval str_eval coerce_eval)
  have d: "dump float_str example_doc 2
       = ''name: BlackRoad\<newline>version: 1.0\<newline>features:\<newline>  - auth\<newline>  - api\<newline>  - database\<newline>config:\<newline>  debug: true\<newline>  port: 8080\<newline>  host: localhost''"
    by (simp add: example_doc_def dump_def prefix_of_def wf_eval newline_def dquote_def squote_def
          two_spaces)
  show ?thesis
    using load_dump_roundtrip [of 2 float_table float_str example_doc] r d by simp
qed

text \<open>
  The claim as stated fails on the String \<^verbatim>\<open>42\<close>, which \<open>load\<close> produces from the
  document \<^verbatim>\<open>"42"\<close> and which has no double quote: it is dumped without quotes and
  loads as the Integer 42.
\<close>

theorem load_dump_string_42_counterexample:
  "load float_table (CHR 0x22 # ''42'' @ [CHR 0x22]) = Inr (VStr ''42'')
   \<and> CHR 0x22 \<notin> set ''42''
   \<and> load float_table (dump float_str (VStr ''42'') 2) = Inr (VInt 42)
   \<and> VInt 42 \<noteq> (VStr ''42'' :: string val)"
  by (simp add: str_eval coerce_eval load_eval dump_def special_chars_def)

text \<open>
  Claim C2, as amended.  Let the indent width be positive and let \<open>v\<close> be a scalar,
  or a non-empty sequence of scalars, or a non-empty mapping whose keys have no
  newline, no leading whitespace, no leading \<^verbatim>\<open>#\<close> or \<^verbatim>\<open>"- "\<close> and no \<^verbatim>\<open>": "\<close>, and whose
  values are scalars or again such sequences and mappings.  Let the text of each scalar
  have no newline, not be blank, not end with a colon, and be the text of its own
  coercion (and, for a scalar that is the whole document, not look like a comment, a
  list item or a key line).  Then the dump of the load of the dump of \<open>v\<close> is the dump
  of \<open>v\<close>, character for character.
\<close>

theorem dump_load_dump_settled:
  assumes "0 < w" and "settles pf sf v"
  shows "\<exists>v'. load pf (dump sf v w) = Inr v' \<and> dump sf v' w = dump sf v w"
proof -
  have wf: "wf_doc (settled_leaf pf sf) (settled_root pf sf) v"
    using assms(2) by (simp add: settles_def)
  have "load pf (dump sf v w) = Inr (norm pf sf v)"
    by (rule load_dump_norm[OF assms(1) _ _ wf]) (simp_all add: settled_leaf_def settled_root_def)
  moreover have "dump sf (norm pf sf v) w = dump sf v w"
  proof (cases "is_collection v")
    case True
    then have "wf_block (settled_leaf pf sf) v" using wf by (simp add: wf_doc_def)
    then show ?thesis
      unfolding dump_def by (intro dump_norm_settled(1)) (simp_all add: settled_leaf_def)
  next
    case False
    then have "render sf (scanner_parse_value pf (render sf v)) = render sf v"
      using wf by (simp add: wf_doc_def settled_root_def)
    then show ?thesis
      using False by (simp add: dump_def norm_scalar render_scalar coerce_scalar)
  qed
  ultimately show ?thesis by blast
qed

theorem dump_load_dump_settled_witness:
  "(0::int) < 2
   \<and> settles float_table float_str (VDict [(''a'', VStr ''42''), (''b'', VList [VStr ''x y''])])
   \<and> load float_table (dump float_str (VDict [(''a'', VStr ''42''), (''b'', VList [VStr ''x y''])]) 2)
        = Inr (VDict [(''a'', VInt 42), (''b'', VList [VStr ''x y''])])
   \<and> dump float_str (VDict [(''a'', VInt 42), (''b'', VList [VStr ''x y''])]) 2
        = dump float_str (VDict [(''a'', VStr ''42''), (''b'', VList [VStr ''x y''])]) 2"
proof -
  have s: "settles float_table float_str (VDict [(''a'', VStr ''42''), (''b'', VList [VStr ''x y''])])"
    by (simp add: wf_eval str_eval coerce_eval)
  have d: "dump float_str (VDict [(''a'', VStr ''42''), (''b'', VList [VStr ''x y''])]) 2
             = ''a: 42\<newline>b:\<newline>  - x y''"
    by (simp add: dump_def prefix_of_def wf_eval newline_def dquote_def squote_def two_spaces)
  have l: "load float_table ''a: 42\<newline>b:\<newline>  - x y''
             = Inr (VDict [(''a'', VInt 42), (''b'', VList [VStr ''x y''])])"
    by (simp add: str_eval coerce_eval load_eval float_table_def)
  show ?thesis
    using dump_load_dump_settled [of 2 float_table float_str
        "VDict [(''a'', VStr ''42''), (''b'', VList [VStr ''x y''])]"] s l
    by (simp add: d)
qed

text \<open>
  The claim as stated fails on the empty sequence, which has no String at all: its
  dump \<^verbatim>\<open>[]\<close> loads as the String \<^verbatim>\<open>[]\<close>, whose dump has quotes.  It fails on the empty
  String too, whose dump is the empty text, which loads as Null.
\<close>

theorem dump_load_dump_counterexample:
  "dump float_str (VList []) 2 = ''[]''
   \<and> load float_table ''[]'' = Inr (VStr ''[]'')
   \<and> dump float_str (VStr ''[]'') 2 = CHR 0x22 # ''[]'' @ [CHR 0x22]
   \<and> CHR 0x22 # ''[]'' @ [CHR 0x22] \<noteq> ''[]''
   \<and> set [] \<inter> set special_chars = {}
   \<and> dump float_str (VStr []) 2 = []
   \<and> load float_table [] = Inr VNull
   \<and> dump float_str (VNull :: string val) 2 = ''null''
   \<and> ''null'' \<noteq> []"
  by (simp add: str_eval coerce_eval load_eval dump_def special_chars_def float_table_def)

section \<open>The recursion limit\<close>

text \<open>
  Each function under the recursion limit raises \<^verbatim>\<open>RecursionError\<close> when fewer frames
  are free than its calls occupy, and otherwise returns what the function without
  the limit returns.
\<close>

lemma scan_lines_fr_frames:
  "scan_lines_fr free pf n ls =
     (if free = 0 \<and> tokens_of pf n ls \<noteq> [] then Inl RecursionError
      else Inr (tokens_of pf n ls))"
proof (induction ls arbitrary: n)
  case Nil
  then show ?case by (simp add: tokens_of_Nil)
next
  case (Cons l ls)
  obtain r where r: "scan_line pf n l = Inr r" using scan_line_total by blast
  show ?case
  proof (cases r)
    case None
    then show ?thesis using r Cons[of "Suc n"]
      by (simp add: scan_line_fr_def tokens_of_Cons_None)
  next
    case (Some t)
    then show ?thesis using r Cons[of "Suc n"]
      by (simp add: scan_line_fr_def tokens_of_Cons_Some)
  qed
qed

lemma scanner_scan_fr_frames:
  "scanner_scan_fr free pf text =
     (if free < frames_scan (tokens_of pf 1 (split_lines text)) then Inl RecursionError
      else Inr (tokens_of pf 1 (split_lines text)))"
  by (auto simp: scanner_scan_fr_def scan_lines_fr_frames frames_scan_def)

lemma parse_scalar_fr_frames:
  "parser_parse_scalar_fr free pf s =
     (if free < 2 then Inl RecursionError else Inr (parser_parse_scalar pf s))"
  by (auto simp: parser_parse_scalar_fr_def construct_fr_def scanner_parse_value_fr_def
        parser_parse_scalar_def)

lemma list_loop_fr_frames:
  "list_loop_fr free pf b ts r =
     (if free < frames_list b ts - 1 then Inl RecursionError
      else Inr (parser_parse_list pf b ts r))"
proof (induction ts arbitrary: r)
  case Nil
  then show ?case by (simp add: frames_list_def)
next
  case (Cons t ts)
  have le: "frames_list b ts - 1 \<le> 2"
    by (auto simp: frames_list_def split: list.splits tok.splits)
  show ?case
  proof (cases "indent t < b")
    case True
    then show ?thesis by (simp add: frames_list_def)
  next
    case ge: False
    show ?thesis
    proof (cases "tok t")
      case (LIST_ITEM s)
      then show ?thesis
        using ge le Cons[of "r @ [parser_parse_scalar pf s]"]
        by (auto simp: frames_list_def parse_scalar_fr_frames)
    qed (use ge in \<open>simp_all add: frames_list_def\<close>)
  qed
qed

lemma parse_list_fr_frames:
  "parser_parse_list_fr free pf b ts =
     (if free < frames_list b ts then Inl RecursionError
      else Inr (parser_parse_list pf b ts []))"
proof -
  have "1 \<le> frames_list b ts"
    by (auto simp: frames_list_def split: list.splits tok.splits)
  then show ?thesis
    by (auto simp: parser_parse_list_fr_def list_loop_fr_frames)
qed

lemma parse_fr_frames:
  "parser_parse_value_fr free pf b ts =
     (if free < frames_value pf b ts then Inl RecursionError
      else Inr (parser_parse_value pf b ts))"
  "parser_parse_mapping_fr free pf b ts =
     (if free < 1 + frames_children pf b ts then Inl RecursionError
      else Inr (parser_parse_mapping pf b ts []))"
  "mapping_loop_fr free pf b ts r =
     (if free < frames_children pf b ts then Inl RecursionError
      else Inr (parser_parse_mapping pf b ts r))"
proof (induction free pf b ts and free pf b ts and free pf b ts r
       rule: parser_parse_value_fr_parser_parse_mapping_fr_mapping_loop_fr.induct)
  case (1 free pf base_indent ts)
  show ?case
  proof (cases "free = 0")
    case True
    then show ?thesis
      by (cases ts) (auto simp: parser_parse_value_fr.simps frames_value.simps split: tok.splits)
  next
    case f: False
    show ?thesis
    proof (cases ts)
      case Nil
      then show ?thesis using f
        by (auto simp: parser_parse_value_fr.simps frames_value.simps parser_parse_value.simps)
    next
      case (Cons t ts')
      show ?thesis
      proof (cases "tok t")
        case (LIST_ITEM s)
        then show ?thesis using f Cons
          by (auto simp: parser_parse_value_fr.simps frames_value.simps parser_parse_value.simps
                parse_list_fr_frames split: prod.splits simp del: parser_parse_list.simps)
      next
        case (KEY k)
        then show ?thesis using f Cons "1.IH"(1)[OF f Cons KEY]
          by (auto simp: parser_parse_value_fr.simps frames_value.simps parser_parse_value.simps
                split: prod.splits)
      next
        case (KEY_VALUE k v)
        then show ?thesis using f Cons "1.IH"(2)[OF f Cons KEY_VALUE]
          by (auto simp: parser_parse_value_fr.simps frames_value.simps parser_parse_value.simps
                split: prod.splits)
      next
        case (VALUE v)
        then show ?thesis using f Cons
          by (auto simp: parser_parse_value_fr.simps frames_value.simps parser_parse_value.simps)
      qed
    qed
  qed
next
  case (2 free pf base_indent ts)
  show ?case
  proof (cases "free = 0")
    case True
    then show ?thesis by (simp add: parser_parse_mapping_fr.simps)
  next
    case f: False
    then show ?thesis using "2.IH"[OF f]
      by (auto simp: parser_parse_mapping_fr.simps)
  qed
next
  case (3 free pf base_indent result)
  then show ?case
    by (simp add: mapping_loop_fr.simps frames_children.simps parser_parse_mapping.simps)
next
  case (4 free pf base_indent t ts result)
  show ?case
  proof (cases "indent t < base_indent")
    case True
    then show ?thesis
      by (simp add: mapping_loop_fr.simps frames_children.simps parser_parse_mapping.simps)
  next
    case ge: False
    show ?thesis
    proof (cases "tok t")
      case (LIST_ITEM s)
      then show ?thesis using ge
        by (simp add: mapping_loop_fr.simps frames_children.simps parser_parse_mapping.simps)
    next
      case (VALUE v)
      then show ?thesis using ge
        by (simp add: mapping_loop_fr.simps frames_children.simps parser_parse_mapping.simps)
    next
      case (KEY_VALUE k v)
      then show ?thesis using ge "4.IH"(5)[OF ge KEY_VALUE]
        by (simp add: mapping_loop_fr.simps frames_children.simps parser_parse_mapping.simps)
    next
      case (KEY k)
      show ?thesis
      proof (cases ts)
        case Nil
        then show ?thesis using ge KEY
          by (simp add: mapping_loop_fr.simps frames_children.simps parser_parse_mapping.simps)
      next
        case (Cons n ns)
        show ?thesis
        proof (cases "indent t < indent n")
          case False
          then show ?thesis using ge KEY Cons "4.IH"(4)[OF ge KEY Cons False]
            by (simp add: mapping_loop_fr.simps frames_children.simps parser_parse_mapping.simps)
        next
          case True
          note v = "4.IH"(2)[OF ge KEY Cons True]
          obtain v' rest' where pv: "parser_parse_value pf (indent n) ts = (v', rest')"
            by (cases "parser_parse_value pf (indent n) ts")
          have step: "mapping_loop_fr free pf base_indent (t # ts) result
                        = (case parser_parse_value_fr free pf (indent n) ts of
                             Inl e \<Rightarrow> Inl e
                           | Inr (v, rest) \<Rightarrow>
                               mapping_loop_fr free pf base_indent rest (dict_set result k v))"
            using ge KEY Cons True by (simp add: mapping_loop_fr.simps)
          have fc: "frames_children pf base_indent (t # ts)
                      = max (frames_value pf (indent n) ts)
                            (frames_children pf base_indent rest')"
            using ge KEY Cons True pv by (simp add: frames_children.simps)
          have tot: "parser_parse_mapping pf base_indent (t # ts) result
                       = parser_parse_mapping pf base_indent rest' (dict_set result k v')"
            using ge KEY Cons True pv by (simp add: parser_parse_mapping.simps)
          show ?thesis
          proof (cases "free < frames_value pf (indent n) ts")
            case True
            then show ?thesis unfolding step fc using v by simp
          next
            case False
            then have pvf: "parser_parse_value_fr free pf (indent n) ts = Inr (v', rest')"
              using v pv by simp
            have l: "mapping_loop_fr free pf base_indent rest' (dict_set result k v')
                       = (if free < frames_children pf base_indent rest' then Inl RecursionError
                          else Inr (parser_parse_mapping pf base_indent rest' (dict_set result k v')))"
              using "4.IH"(3)[OF ge KEY Cons True pvf refl] .
            show ?thesis unfolding step fc tot pvf using False l by (auto simp: max_def)
          qed
        qed
      qed
    qed
  qed
qed

lemma parser_parse_fr_frames:
  "parser_parse_fr free pf tokens =
     (if free < frames_parse pf tokens then Inl RecursionError
      else Inr (parser_parse pf tokens))"
  by (cases "parser_parse_value pf 0 tokens")
     (auto simp: parser_parse_fr_def frames_parse_def parser_parse_def parse_fr_frames(1))

lemma load_fr_frames:
  "load_fr free pf text =
     (if free < frames_load pf (tokens_of pf 1 (split_lines text)) then Inl RecursionError
      else Inr (parser_parse pf (tokens_of pf 1 (split_lines text))))"
proof -
  let ?tokens = "tokens_of pf 1 (split_lines text) :: 'a token list"
  have "1 \<le> frames_scan ?tokens" "1 \<le> frames_parse pf ?tokens"
    by (simp_all add: frames_scan_def frames_parse_def)
  then show ?thesis
    by (auto simp: load_fr_def construct_fr_def scanner_scan_fr_frames parser_parse_fr_frames
          frames_load_def)
qed

lemma load_fr_scan:
  "load_fr free pf text =
     (case scanner_scan pf text of
        Inl e \<Rightarrow> Inl e
      | Inr tokens \<Rightarrow>
          if free < frames_load pf tokens then Inl RecursionError
          else Inr (parser_parse pf tokens))"
  by (simp add: load_fr_frames scanner_scan_def scan_lines_tokens_of)








lemma nested_line_token:
  "scan_line pf m (replicate i CHR '' '' @ ''k:'')
     = Inr (Some \<lparr>tok = KEY ''k'', line = m, indent = i\<rparr>)"
proof -
  have k: "key_ok ''k''"
    by (simp add: key_ok_def newline_def isspace_def startswith_def contains_def)
  show ?thesis using scan_key_line[OF k, of pf m 1 i] by (simp add: prefix_of_def ind_def)
qed

lemma nested_lines_tokens:
  "tokens_of pf 1 (map (\<lambda>i. replicate i CHR '' '' @ ''k:'') [0..<n]) = nested_tokens 0 n"
proof (induction n)
  case 0
  then show ?case by (simp add: tokens_of_Nil nested_tokens_def)
next
  case (Suc n)
  have "tokens_of pf (Suc n) [replicate n CHR '' '' @ ''k:'']
          = [\<lparr>tok = KEY ''k'', line = Suc n, indent = n\<rparr>]"
    using tokens_of_Cons_Some[OF nested_line_token, of pf "Suc n" n "[]"]
    by (simp add: tokens_of_Nil)
  then show ?case using Suc
    by (simp add: tokens_of_append nested_tokens_def)
qed

lemma concat_split_lines:
  "(\<And>l. l \<in> set ls \<Longrightarrow> split_lines l = [l]) \<Longrightarrow> concat (map split_lines ls) = ls"
  by (induction ls) simp_all

lemma nested_doc_lines:
  "0 < n \<Longrightarrow> split_lines (nested_doc n) = map (\<lambda>i. replicate i CHR '' '' @ ''k:'') [0..<n]"
proof -
  assume n: "0 < n"
  let ?ls = "map (\<lambda>i. replicate i CHR '' '' @ ''k:'') [0..<n]"
  have "split_lines l = [l]" if "l \<in> set ?ls" for l
  proof -
    have "newline \<notin> set l" using that by (auto simp: newline_def)
    then show ?thesis by (rule split_lines_no_newline)
  qed
  then have "concat (map split_lines ?ls) = ?ls" by (rule concat_split_lines)
  moreover have "?ls \<noteq> []" using n by simp
  ultimately show ?thesis
    unfolding nested_doc_def using split_join_lines[of ?ls] by simp
qed

lemma nested_doc_tokens:
  "0 < n \<Longrightarrow> scanner_scan pf (nested_doc n) = Inr (nested_tokens 0 n)"
  using nested_lines_tokens[of pf n]
  by (simp add: scanner_scan_def nested_doc_lines scan_lines_tokens_of)

lemma nested_tokens_Cons:
  "j < n \<Longrightarrow> nested_tokens j n
     = \<lparr>tok = KEY ''k'', line = Suc j, indent = j\<rparr> # nested_tokens (Suc j) n"
  by (simp add: nested_tokens_def upt_conv_Cons)

lemma child_frames:
  "\<not> indent t < b \<Longrightarrow> tok t = KEY k \<Longrightarrow> indent t < indent u \<Longrightarrow>
     frames_value pf (indent u) (u # rest) \<le> frames_children pf b (t # u # rest)"
  by (simp add: frames_children.simps)

lemma nested_frames:
  "j < n \<Longrightarrow> 2 * (n - j) \<le> frames_value pf j (nested_tokens j n)"
proof (induction "n - j" arbitrary: j)
  case 0
  then show ?case by simp
next
  case (Suc d)
  let ?t = "\<lparr>tok = KEY ''k'', line = Suc j, indent = j\<rparr> :: 'a token"
  have ts: "nested_tokens j n = ?t # nested_tokens (Suc j) n"
    using Suc.prems by (rule nested_tokens_Cons)
  have v: "frames_value pf j (nested_tokens j n)
             = 2 + frames_children pf j (?t # nested_tokens (Suc j) n)"
    unfolding ts by (simp add: frames_value.simps)
  show ?case
  proof (cases "Suc j < n")
    case False
    then have "n - j = 1" using Suc.prems by simp
    then show ?thesis using v by simp
  next
    case True
    let ?u = "\<lparr>tok = KEY ''k'', line = Suc (Suc j), indent = Suc j\<rparr> :: 'a token"
    have us: "nested_tokens (Suc j) n = ?u # nested_tokens (Suc (Suc j)) n"
      using True by (rule nested_tokens_Cons)
    have "d = n - Suc j" using Suc.hyps(2) by simp
    then have IH: "2 * (n - Suc j) \<le> frames_value pf (Suc j) (nested_tokens (Suc j) n)"
      using Suc.hyps(1)[of "Suc j"] True by simp
    have "frames_value pf (Suc j) (nested_tokens (Suc j) n)
                 \<le> frames_children pf j (?t # nested_tokens (Suc j) n)"
      unfolding us using child_frames[of ?t j "''k''" ?u pf] by simp
    then show ?thesis using v IH True by simp
  qed
qed

lemma nested_doc_overflows:
  assumes "0 < n" and "free_frames < 2 * n + 2"
  shows "load_fr free_frames pf (nested_doc n) = Inl RecursionError"
proof -
  have "2 * n \<le> frames_value pf 0 (nested_tokens 0 n)"
    using nested_frames[of 0 n pf] assms(1) by simp
  moreover have "(nested_tokens 0 n :: 'a token list) \<noteq> []"
    using assms(1) by (simp add: nested_tokens_def)
  ultimately have "2 * n + 2 \<le> frames_load pf (nested_tokens 0 n)"
    by (simp add: frames_load_def frames_parse_def)
  then show ?thesis
    using assms by (simp add: load_fr_scan nested_doc_tokens)
qed

text \<open>No number of frames is enough for every text.\<close>

lemma no_limit_suffices: "\<exists>text. load_fr free_frames pf text = Inl RecursionError"
  using nested_doc_overflows[of "Suc free_frames" free_frames pf] by auto

text \<open>
  The document \<^verbatim>\<open>a:\<close>, \<^verbatim>\<open>  b:\<close>, \<^verbatim>\<open>    - x\<close> nests ten calls: \<^verbatim>\<open>load\<close>, \<^verbatim>\<open>parse\<close>, then
  \<^verbatim>\<open>_parse_value\<close> and \<^verbatim>\<open>_parse_mapping\<close> for each of the two mappings, then
  \<^verbatim>\<open>_parse_value\<close>, \<^verbatim>\<open>_parse_list\<close>, \<^verbatim>\<open>_parse_scalar\<close> and \<^verbatim>\<open>Scanner._parse_value\<close>.
\<close>

lemmas fr_eval = load_fr_def construct_fr_def scanner_scan_fr_def scan_line_fr_def
  scan_line_def parser_parse_fr_def parser_parse_value_fr.simps parser_parse_mapping_fr.simps
  mapping_loop_fr.simps parser_parse_list_fr_def parser_parse_scalar_fr_def
  scanner_parse_value_fr_def

lemma frames_example:
  "load_fr 9 float_table ''a:\<newline>  b:\<newline>    - x'' = Inl RecursionError
   \<and> load_fr 10 float_table ''a:\<newline>  b:\<newline>    - x''
       = Inr (VDict [(''a'', VDict [(''b'', VList [VStr ''x''])])])"
  by (simp add: str_eval coerce_eval fr_eval float_table_def)




end
